theory Spec2Isabelle
  imports Main "HOL-Library.Word"
begin

unbundle bit_operations_syntax

section \<open>Common types\<close>

type_synonym byte = "8 word"
type_synonym uint16 = "16 word"
type_synonym uint32 = "32 word"

text \<open>
  The error values declared in \<^verbatim>\<open>errors.go\<close> and \<^verbatim>\<open>helpers.go\<close> of package
  \<^verbatim>\<open>buffer\<close>. The last three constructors are not error values of the
  repository. Two stand for the Go runtime panic raised by an index or a slice bound out of
  range and for the panic of the deque library on a pop from an empty queue, so that every
  read of the model has an explicit failure branch. The third marks a call whose result the
  contract of \<^verbatim>\<open>sort.Slice\<close> leaves open (see \<open>buildTransportCCPacket\<close>): there the
  model gives no packet rather than one the code may not build.
\<close>

datatype error =
    errPacketNotFound
  | errBufferTooSmall
  | errPacketTooOld
  | errRTXPacket
  | errShortPacket
  | errNilPacket
  | panicIndexOutOfRange
  | panicEmptyQueue
  | sortOrderUnspecified

section \<open>VP8 payload descriptor (\<^verbatim>\<open>helpers.go\<close>)\<close>

record VP8 =
  TemporalSupported :: bool
  PictureID :: uint16
  PicIDIdx :: nat
  MBit :: bool
  TL0PICIDX :: byte
  TlzIdx :: nat
  TID :: byte
  IsKeyFrame :: bool

text \<open>
  \<^verbatim>\<open>payload[idx]\<close>: the continuation receives the byte; an index outside the slice is
  the runtime panic. The record passed along is the receiver as mutated so far.
\<close>

definition rd :: "byte list \<Rightarrow> nat \<Rightarrow> VP8 \<Rightarrow> (byte \<Rightarrow> error option \<times> VP8) \<Rightarrow> error option \<times> VP8" where
  "rd payload idx p k =
     (if idx < length payload then k (payload ! idx) else (Some panicIndexOutOfRange, p))"

text \<open>The last two statements of both branches: the P bit of the first payload byte after the descriptor.\<close>

definition keyframe_tail :: "byte list \<Rightarrow> nat \<Rightarrow> bool \<Rightarrow> VP8 \<Rightarrow> error option \<times> VP8" where
  "keyframe_tail payload idx S p =
     (let idx = idx + 1 in
      if length payload < idx + 1 then (Some errShortPacket, p)
      else rd payload idx p (\<lambda>b. (None, p\<lparr>IsKeyFrame := (b AND 0x01 = 0 \<and> S)\<rparr>)))"

text \<open>\<^verbatim>\<open>if p.TemporalSupported || K { ... }\<close> and what follows it in the extended branch.\<close>

definition tid_part :: "byte list \<Rightarrow> nat \<Rightarrow> bool \<Rightarrow> bool \<Rightarrow> VP8 \<Rightarrow> error option \<times> VP8" where
  "tid_part payload idx S K p =
     (if TemporalSupported p \<or> K then
        (let idx = idx + 1 in
         if length payload < idx + 1 then (Some errShortPacket, p)
         else rd payload idx p (\<lambda>b.
           let p = p\<lparr>TID := drop_bit 6 (b AND 0xc0)\<rparr> in
           if idx \<ge> length payload then (Some errShortPacket, p)
           else keyframe_tail payload idx S p))
      else if idx \<ge> length payload then (Some errShortPacket, p)
      else keyframe_tail payload idx S p)"

text \<open>\<^verbatim>\<open>if L { ... }\<close>: the TL0PICIDX byte.\<close>

definition tl0_part :: "byte list \<Rightarrow> nat \<Rightarrow> bool \<Rightarrow> bool \<Rightarrow> bool \<Rightarrow> VP8 \<Rightarrow> error option \<times> VP8" where
  "tl0_part payload idx S K L p =
     (if L then
        (let idx = idx + 1 in
         if length payload < idx + 1 then (Some errShortPacket, p)
         else
           let p = p\<lparr>TlzIdx := idx\<rparr> in
           if idx \<ge> length payload then (Some errShortPacket, p)
           else rd payload idx p (\<lambda>b. tid_part payload idx S K (p\<lparr>TL0PICIDX := b\<rparr>)))
      else tid_part payload idx S K p)"

text \<open>\<^verbatim>\<open>if payload[idx]&0x80 > 0 { ... }\<close> on the extension byte: the 7 or 15 bit picture ID.\<close>

definition picid_part :: "byte list \<Rightarrow> nat \<Rightarrow> bool \<Rightarrow> bool \<Rightarrow> bool \<Rightarrow> VP8 \<Rightarrow> error option \<times> VP8" where
  "picid_part payload idx S K L p =
     rd payload idx p (\<lambda>x.
       if x AND 0x80 > 0 then
         (let idx = idx + 1 in
          if length payload < idx + 1 then (Some errShortPacket, p)
          else
            let p = p\<lparr>PicIDIdx := idx\<rparr> in
            rd payload idx p (\<lambda>b.
              let pid = b AND 0x7f in
              if b AND 0x80 > 0 then
                (let idx = idx + 1 in
                 if length payload < idx + 1 then (Some errShortPacket, p)
                 else
                   let p = p\<lparr>MBit := True\<rparr> in
                   rd payload idx p (\<lambda>lo.
                     tl0_part payload idx S K L
                       (p\<lparr>PictureID := push_bit 8 (ucast pid) OR ucast lo\<rparr>)))
              else tl0_part payload idx S K L (p\<lparr>PictureID := ucast pid\<rparr>)))
       else tl0_part payload idx S K L p)"

text \<open>
  \<^verbatim>\<open>func (p *VP8) Unmarshal(payload []byte) error\<close>. A nil slice is \<open>None\<close>; the result is
  the returned error (\<open>None\<close> for nil) and the receiver after the call.
\<close>

definition Unmarshal :: "VP8 \<Rightarrow> byte list option \<Rightarrow> error option \<times> VP8" where
  "Unmarshal p pl =
     (case pl of
        None \<Rightarrow> (Some errNilPacket, p)
      | Some payload \<Rightarrow>
          if length payload < 1 then (Some errShortPacket, p)
          else
            let idx = 0 in
            rd payload idx p (\<lambda>b0.
              let S = (b0 AND 0x10 > 0) in
              if b0 AND 0x80 > 0 then
                (let idx = idx + 1 in
                 if length payload < idx + 1 then (Some errShortPacket, p)
                 else rd payload idx p (\<lambda>x.
                   let p = p\<lparr>TemporalSupported := (x AND 0x20 > 0)\<rparr>;
                       K = (x AND 0x10 > 0);
                       L = (x AND 0x40 > 0)
                   in picid_part payload idx S K L p))
              else keyframe_tail payload idx S p))"

text \<open>
  The layout of the descriptor, read off the first bytes without the chain of index steps
  of \<open>Unmarshal\<close>, to compare with it. \<open>vp8_pid_len\<close> is the count of picture ID bytes
  of an extended descriptor, \<open>vp8_desc_len\<close> the length of the descriptor, \<open>vp8_need\<close>
  the count of bytes a payload must have (the descriptor and one byte after it), and
  \<open>vp8_parsed\<close> the receiver after a parse of a payload that has them.
\<close>

definition vp8_pid_len :: "byte list \<Rightarrow> nat" where
  "vp8_pid_len bs =
     (if bs ! 1 AND 0x80 > 0
      then (if 2 < length bs \<and> bs ! 2 AND 0x80 > 0 then 2 else 1)
      else 0)"

definition vp8_desc_len :: "byte list \<Rightarrow> nat" where
  "vp8_desc_len bs =
     (if bs ! 0 AND 0x80 > 0
      then 2 + vp8_pid_len bs
             + (if bs ! 1 AND 0x40 > 0 then 1 else 0)
             + (if bs ! 1 AND 0x20 > 0 \<or> bs ! 1 AND 0x10 > 0 then 1 else 0)
      else 1)"

definition vp8_need :: "byte list \<Rightarrow> nat" where
  "vp8_need bs = (if length bs < 2 then 2 else vp8_desc_len bs + 1)"

definition vp8_parsed :: "VP8 \<Rightarrow> byte list \<Rightarrow> VP8" where
  "vp8_parsed p bs =
     (let S = (bs ! 0 AND 0x10 > 0) in
      if bs ! 0 AND 0x80 > 0 then
        (let n = vp8_pid_len bs;
             l = (if bs ! 1 AND 0x40 > 0 then 1 else 0 :: nat);
             p = p\<lparr>TemporalSupported := (bs ! 1 AND 0x20 > 0)\<rparr>;
             p = (if bs ! 1 AND 0x80 > 0 then
                    (if bs ! 2 AND 0x80 > 0
                     then p\<lparr>PicIDIdx := 2, MBit := True,
                            PictureID := push_bit 8 (ucast (bs ! 2 AND 0x7f)) OR ucast (bs ! 3)\<rparr>
                     else p\<lparr>PicIDIdx := 2, PictureID := ucast (bs ! 2 AND 0x7f)\<rparr>)
                  else p);
             p = (if bs ! 1 AND 0x40 > 0
                  then p\<lparr>TlzIdx := 2 + n, TL0PICIDX := bs ! (2 + n)\<rparr> else p);
             p = (if bs ! 1 AND 0x20 > 0 \<or> bs ! 1 AND 0x10 > 0
                  then p\<lparr>TID := drop_bit 6 (bs ! (2 + n + l) AND 0xc0)\<rparr> else p)
         in p\<lparr>IsKeyFrame := (bs ! vp8_desc_len bs AND 0x01 = 0 \<and> S)\<rparr>)
      else p\<lparr>IsKeyFrame := (bs ! 1 AND 0x01 = 0 \<and> S)\<rparr>)"

text \<open>
  Example: an extended descriptor with a 15-bit picture ID \<open>0x0123\<close>, TL0PICIDX 7 and
  temporal layer 1, at the start of a partition of a key frame; and a receiver.
\<close>

definition vp8_example :: "byte list" where
  "vp8_example = [0x90, 0xE0, 0x81, 0x23, 0x07, 0x40, 0x00]"

definition vp8_zero :: VP8 where
  "vp8_zero = \<lparr>TemporalSupported = False, PictureID = 0, PicIDIdx = 0, MBit = False,
                TL0PICIDX = 0, TlzIdx = 0, TID = 0, IsKeyFrame = False\<rparr>"

section \<open>NACK queue (\<^verbatim>\<open>nack.go\<close>)\<close>

definition maxNackTimes :: byte where
  "maxNackTimes = 3"

definition maxNackCache :: nat where
  "maxNackCache = 100"

record nack =
  nack_sn :: uint32
  nacked :: byte

record nackQueue =
  nacks :: "nack list"
  kfSN :: uint32

text \<open>\<^verbatim>\<open>rtcp.NackPair\<close>: a base packet ID and the bitmask of the 16 sequence numbers after it.\<close>

record NackPair =
  PacketID :: uint16
  LostPackets :: uint16

definition newNACKQueue :: nackQueue where
  "newNACKQueue = \<lparr>nacks = [], kfSN = 0\<rparr>"

text \<open>
  \<^verbatim>\<open>sort.Search(n, f)\<close> of the Go library, called as \<open>Search 0 n f\<close>: the binary search
  \<^verbatim>\<open>for i < j { h := (i+j)/2; if !f(h) { i = h+1 } else { j = h } }\<close>. It evaluates \<open>f\<close>
  only at indices \<open>h\<close> with \<open>i \<le> h < j\<close>.
\<close>

function Search :: "nat \<Rightarrow> nat \<Rightarrow> (nat \<Rightarrow> bool) \<Rightarrow> nat" where
  "Search i j f =
     (if i < j then
        (let h = (i + j) div 2 in
         if \<not> f h then Search (h + 1) j f else Search i h f)
      else i)"
  by pat_completeness auto
termination
  by (relation "measure (\<lambda>(i, j, f). j - i)") auto

declare Search.simps [simp del]

definition remove :: "nackQueue \<Rightarrow> uint32 \<Rightarrow> nackQueue" where
  "remove n extSN =
     (let i = Search 0 (length (nacks n)) (\<lambda>i. nack_sn (nacks n ! i) \<ge> extSN) in
      if i \<ge> length (nacks n) \<or> nack_sn (nacks n ! i) \<noteq> extSN then n
      else n\<lparr>nacks := take i (nacks n) @ drop (i + 1) (nacks n)\<rparr>)"

text \<open>
  \<^verbatim>\<open>push\<close>. The insertion puts the new entry at index \<open>i\<close>. The final
  \<^verbatim>\<open>copy(n.nacks, n.nacks[1:])\<close> moves every element but the first one place down and
  leaves the slice header alone: the length is unchanged and the last element stays where
  it was.
\<close>

definition push :: "nackQueue \<Rightarrow> uint32 \<Rightarrow> nackQueue" where
  "push n extSN =
     (let i = Search 0 (length (nacks n)) (\<lambda>i. nack_sn (nacks n ! i) \<ge> extSN) in
      if i < length (nacks n) \<and> nack_sn (nacks n ! i) = extSN then n
      else
        let nck = \<lparr>nack_sn = extSN, nacked = 0\<rparr>;
            ys = (if i = length (nacks n) then nacks n @ [nck]
                  else take i (nacks n) @ [nck] @ drop i (nacks n))
        in n\<lparr>nacks := (if length ys \<ge> maxNackCache then tl ys @ [last ys] else ys)\<rparr>)"

text \<open>
  The loop of \<^verbatim>\<open>pairs\<close>. \<open>kept\<close> is \<^verbatim>\<open>n.nacks[:i]\<close>, the entries written back so far;
  the entry read in round \<open>j\<close> is at an index the writes have not passed, so the loop reads
  the entries the queue had at the call.
\<close>

record pairs_state =
  kept :: "nack list"
  kf :: uint32
  askKF :: bool
  np :: NackPair
  nps :: "NackPair list"

definition pairs_step :: "uint32 \<Rightarrow> pairs_state \<Rightarrow> nack \<Rightarrow> pairs_state" where
  "pairs_step headSN st nck =
     (if nacked nck \<ge> maxNackTimes then
        (if nack_sn nck > kf st then st\<lparr>kf := nack_sn nck, askKF := True\<rparr> else st)
      else if nack_sn nck \<ge> headSN - 2 then st\<lparr>kept := kept st @ [nck]\<rparr>
      else
        let st = st\<lparr>kept := kept st @ [\<lparr>nack_sn = nack_sn nck, nacked = nacked nck + 1\<rparr>]\<rparr>;
            s16 = (ucast (nack_sn nck) :: uint16)
        in
          if PacketID (np st) = 0 \<or> s16 > PacketID (np st) + 16 then
            st\<lparr>nps := (if PacketID (np st) \<noteq> 0 then nps st @ [np st] else nps st),
               np := \<lparr>PacketID = s16, LostPackets = 0\<rparr>\<rparr>
          else
            st\<lparr>np := (np st)\<lparr>LostPackets :=
                   LostPackets (np st) OR push_bit (unat (s16 - PacketID (np st) - 1)) 1\<rparr>\<rparr>)"

definition pairs_init :: "nackQueue \<Rightarrow> pairs_state" where
  "pairs_init n =
     \<lparr>kept = [], kf = kfSN n, askKF = False, np = \<lparr>PacketID = 0, LostPackets = 0\<rparr>, nps = []\<rparr>"

text \<open>
  \<^verbatim>\<open>pairs(headSN)\<close> returns the pairs (the nil slice is \<open>[]\<close>), the keyframe flag and
  the queue after the call.
\<close>

definition pairs :: "nackQueue \<Rightarrow> uint32 \<Rightarrow> NackPair list \<times> bool \<times> nackQueue" where
  "pairs n headSN =
     (if length (nacks n) = 0 then ([], False, n)
      else
        let st = foldl (pairs_step headSN) (pairs_init n) (nacks n) in
        ((if PacketID (np st) \<noteq> 0 then nps st @ [np st] else nps st),
         askKF st,
         n\<lparr>nacks := kept st, kfSN := kf st\<rparr>))"

text \<open>
  The sequence numbers that take the branch \<^verbatim>\<open>nck.sn > n.kfSN\<close> in a run of the loop of
  \<open>pairs\<close> over the entries, in order: each raises the keyframe flag and becomes the
  keyframe number for the entries after it.
\<close>

fun flagging :: "uint32 \<Rightarrow> nack list \<Rightarrow> uint32 list" where
  "flagging k [] = []"
| "flagging k (e # es) =
     (if nacked e \<ge> maxNackTimes \<and> nack_sn e > k
      then nack_sn e # flagging (nack_sn e) es
      else flagging k es)"

text \<open>
  Runs of calls on a queue: the flag each call of \<open>pairs\<close> returns, and the sequence
  numbers that raise the flag, over all the calls of \<open>pairs\<close> of the run.
\<close>

datatype nack_op = PushOp uint32 | RemoveOp uint32 | PairsOp uint32

fun ask_flags :: "nackQueue \<Rightarrow> nack_op list \<Rightarrow> bool list" where
  "ask_flags n [] = []"
| "ask_flags n (PushOp extSN # ops) = ask_flags (push n extSN) ops"
| "ask_flags n (RemoveOp extSN # ops) = ask_flags (remove n extSN) ops"
| "ask_flags n (PairsOp headSN # ops) =
     fst (snd (pairs n headSN)) # ask_flags (snd (snd (pairs n headSN))) ops"

fun flag_events :: "nackQueue \<Rightarrow> nack_op list \<Rightarrow> uint32 list" where
  "flag_events n [] = []"
| "flag_events n (PushOp extSN # ops) = flag_events (push n extSN) ops"
| "flag_events n (RemoveOp extSN # ops) = flag_events (remove n extSN) ops"
| "flag_events n (PairsOp headSN # ops) =
     flagging (kfSN n) (nacks n) @ flag_events (snd (snd (pairs n headSN))) ops"

text \<open>A queue with one entry that has been requested three times and one fresh entry.\<close>

definition nack_example :: nackQueue where
  "nack_example = \<lparr>nacks = [\<lparr>nack_sn = 5, nacked = 3\<rparr>, \<lparr>nack_sn = 9, nacked = 0\<rparr>], kfSN = 0\<rparr>"

section \<open>Packet bucket (\<^verbatim>\<open>bucket.go\<close>)\<close>

definition maxPktSize :: int where
  "maxPktSize = 1500"

text \<open>
  The Go \<^verbatim>\<open>int\<close> fields are integers (no value here comes near 64 bits), \<^verbatim>\<open>headSN\<close> is
  a 16-bit word. \<open>buf\<close> is the byte slice; its capacity is taken to be its length, as for
  the buffers the factory allocates. The field \<^verbatim>\<open>src\<close>, kept to hand the buffer back to
  its pool, is left out.
\<close>

record Bucket =
  buf :: "byte list"
  init :: bool
  step :: int
  headSN :: uint16
  maxSteps :: int

text \<open>
  Slice primitives with their bounds checks. \<open>slice xs lo hi\<close> is \<^verbatim>\<open>xs[lo:hi]\<close>;
  \<open>Uint16_at xs off\<close> is \<^verbatim>\<open>binary.BigEndian.Uint16(xs[off:off+2])\<close>;
  \<open>PutUint16_at xs off v\<close> is \<^verbatim>\<open>binary.BigEndian.PutUint16(xs[off:], v)\<close>;
  \<open>copy_at xs off src\<close> is \<^verbatim>\<open>copy(xs[off:], src)\<close>, which writes as many bytes as fit.
\<close>

definition slice :: "byte list \<Rightarrow> int \<Rightarrow> int \<Rightarrow> error + byte list" where
  "slice xs lo hi =
     (if 0 \<le> lo \<and> lo \<le> hi \<and> hi \<le> int (length xs)
      then Inr (take (nat (hi - lo)) (drop (nat lo) xs))
      else Inl panicIndexOutOfRange)"

definition Uint16_at :: "byte list \<Rightarrow> int \<Rightarrow> error + uint16" where
  "Uint16_at xs off =
     (if 0 \<le> off \<and> off + 2 \<le> int (length xs)
      then Inr (push_bit 8 (ucast (xs ! nat off)) OR ucast (xs ! nat (off + 1)))
      else Inl panicIndexOutOfRange)"

definition PutUint16_at :: "byte list \<Rightarrow> int \<Rightarrow> uint16 \<Rightarrow> error + byte list" where
  "PutUint16_at xs off v =
     (if 0 \<le> off \<and> off + 2 \<le> int (length xs)
      then Inr (xs[nat off := ucast (drop_bit 8 v), nat (off + 1) := ucast v])
      else Inl panicIndexOutOfRange)"

definition copy_at :: "byte list \<Rightarrow> int \<Rightarrow> byte list \<Rightarrow> error + byte list" where
  "copy_at xs off src =
     (if 0 \<le> off \<and> off \<le> int (length xs)
      then Inr (take (nat off) xs @ take (length xs - nat off) src
                @ drop (nat off + length src) xs)
      else Inl panicIndexOutOfRange)"

definition NewBucket :: "byte list \<Rightarrow> Bucket" where
  "NewBucket b =
     \<lparr>buf = b, init = False, step = 0, headSN = 0,
      maxSteps = int (length b) div maxPktSize - 1\<rparr>"

text \<open>
  \<^verbatim>\<open>push\<close> of the bucket. The operations return the result (\<open>Inl\<close> an error or the
  panic, \<open>Inr\<close> the stored bytes) together with the bucket after the call.
\<close>

definition push_bucket :: "Bucket \<Rightarrow> byte list \<Rightarrow> (error + byte list) \<times> Bucket" where
  "push_bucket b pkt =
     (case PutUint16_at (buf b) (step b * maxPktSize) (word_of_nat (length pkt)) of
        Inl e \<Rightarrow> (Inl e, b)
      | Inr buf1 \<Rightarrow>
          let off = step b * maxPktSize + 2 in
          (case copy_at buf1 off pkt of
             Inl e \<Rightarrow> (Inl e, b\<lparr>buf := buf1\<rparr>)
           | Inr buf2 \<Rightarrow>
               let b = b\<lparr>buf := buf2, step := step b + 1\<rparr>;
                   b = (if step b > maxSteps b then b\<lparr>step := 0\<rparr> else b)
               in (slice (buf b) off (off + int (length pkt)), b)))"

text \<open>
  The slot position of \<^verbatim>\<open>get\<close>: \<open>None\<close> where \<^verbatim>\<open>get\<close> returns nil before it has a
  position.
\<close>

definition get_pos :: "Bucket \<Rightarrow> uint16 \<Rightarrow> int option" where
  "get_pos b sn =
     (let pos = step b - uint (headSN b - sn + 1) in
      if pos < 0 then
        (if pos * -1 > maxSteps b + 1 then None else Some (maxSteps b + pos + 1))
      else Some pos)"

text \<open>\<^verbatim>\<open>get\<close>: \<open>Inr None\<close> is the nil slice.\<close>

definition get :: "Bucket \<Rightarrow> uint16 \<Rightarrow> error + byte list option" where
  "get b sn =
     (case get_pos b sn of
        None \<Rightarrow> Inr None
      | Some pos \<Rightarrow>
          let off = pos * maxPktSize in
          if off > int (length (buf b)) then Inr None
          else
            (case Uint16_at (buf b) (off + 4) of
               Inl e \<Rightarrow> Inl e
             | Inr s \<Rightarrow>
                 if s \<noteq> sn then Inr None
                 else
                   (case Uint16_at (buf b) off of
                      Inl e \<Rightarrow> Inl e
                    | Inr l \<Rightarrow>
                        let sz = uint l in
                        (case slice (buf b) (off + 2) (off + 2 + sz) of
                           Inl e \<Rightarrow> Inl e
                         | Inr p \<Rightarrow> Inr (Some p)))))"

text \<open>
  \<^verbatim>\<open>GetPacket(buf, sn)\<close>. Of the caller's buffer only the capacity matters; the result is
  the count returned and the bytes copied to the front of that buffer.
\<close>

definition GetPacket :: "Bucket \<Rightarrow> nat \<Rightarrow> uint16 \<Rightarrow> error + nat \<times> byte list" where
  "GetPacket b cap_dst sn =
     (case get b sn of
        Inl e \<Rightarrow> Inl e
      | Inr None \<Rightarrow> Inl errPacketNotFound
      | Inr (Some p) \<Rightarrow>
          if cap_dst < length p then Inl errBufferTooSmall
          else Inr (length p, p))"

text \<open>
  The slot position of \<^verbatim>\<open>set\<close>, computed after the first too-old test has passed.
\<close>

definition set_pos :: "Bucket \<Rightarrow> uint16 \<Rightarrow> int" where
  "set_pos b sn =
     (let pos = step b - uint (headSN b - sn + 1) in
      if pos < 0 then maxSteps b + pos + 1 else pos)"

definition set_bucket :: "Bucket \<Rightarrow> uint16 \<Rightarrow> byte list \<Rightarrow> (error + byte list) \<times> Bucket" where
  "set_bucket b sn pkt =
     (if headSN b - sn \<ge> word_of_int (maxSteps b + 1) then (Inl errPacketTooOld, b)
      else
        let off = set_pos b sn * maxPktSize in
        if off > int (length (buf b)) \<or> off < 0 then (Inl errPacketTooOld, b)
        else
          (case Uint16_at (buf b) (off + 4) of
             Inl e \<Rightarrow> (Inl e, b)
           | Inr s \<Rightarrow>
               if s = sn then (Inl errRTXPacket, b)
               else
                 (case PutUint16_at (buf b) off (word_of_nat (length pkt)) of
                    Inl e \<Rightarrow> (Inl e, b)
                  | Inr buf1 \<Rightarrow>
                      (case copy_at buf1 (off + 2) pkt of
                         Inl e \<Rightarrow> (Inl e, b\<lparr>buf := buf1\<rparr>)
                       | Inr buf2 \<Rightarrow>
                           (slice buf2 (off + 2) (off + 2 + int (length pkt)),
                            b\<lparr>buf := buf2\<rparr>)))))"

text \<open>
  The loop \<^verbatim>\<open>for i := uint16(1); i < diff; i++\<close> of \<^verbatim>\<open>AddPacket\<close> runs
  \<open>diff - 1\<close> times (not at all for \<open>diff = 0\<close>).
\<close>

fun skip_steps :: "nat \<Rightarrow> Bucket \<Rightarrow> Bucket" where
  "skip_steps 0 b = b"
| "skip_steps (Suc k) b =
     skip_steps k
       (let b = b\<lparr>step := step b + 1\<rparr> in
        if step b \<ge> maxSteps b then b\<lparr>step := 0\<rparr> else b)"

definition AddPacket :: "Bucket \<Rightarrow> byte list \<Rightarrow> uint16 \<Rightarrow> bool \<Rightarrow> (error + byte list) \<times> Bucket" where
  "AddPacket b pkt sn latest =
     (let b = (if \<not> init b then b\<lparr>headSN := sn - 1, init := True\<rparr> else b) in
      if \<not> latest then set_bucket b sn pkt
      else
        let diff = sn - headSN b;
            b = b\<lparr>headSN := sn\<rparr>;
            b = skip_steps (unat diff - 1) b
        in push_bucket b pkt)"

text \<open>
  The sequence number field of an RTP packet, bytes 2 and 3 of its header; a slice shorter
  than four bytes has none.
\<close>

definition rtp_sn :: "byte list \<Rightarrow> uint16 option" where
  "rtp_sn p =
     (if 4 \<le> length p then Some (push_bit 8 (ucast (p ! 2)) OR ucast (p ! 3)) else None)"

text \<open>The sequence number bytes of the slot at a position, as \<^verbatim>\<open>get\<close> and \<^verbatim>\<open>set\<close> read them.\<close>

definition slot_sn :: "Bucket \<Rightarrow> int \<Rightarrow> error + uint16" where
  "slot_sn b pos = Uint16_at (buf b) (pos * maxPktSize + 4)"

text \<open>
  The packet a slot holds: the bytes after the length prefix, as many as the prefix says,
  the way \<^verbatim>\<open>get\<close> slices them.
\<close>

definition slot_packet :: "Bucket \<Rightarrow> int \<Rightarrow> error + byte list" where
  "slot_packet b pos =
     (case Uint16_at (buf b) (pos * maxPktSize) of
        Inl e \<Rightarrow> Inl e
      | Inr l \<Rightarrow> slice (buf b) (pos * maxPktSize + 2) (pos * maxPktSize + 2 + uint l))"

text \<open>
  A bucket as \<^verbatim>\<open>NewBucket\<close> and \<^verbatim>\<open>AddPacket\<close> keep it: the step inside the ring, fewer
  than \<open>2^16\<close> slots, and a buffer that holds all of them.
\<close>

definition bucket_ok :: "Bucket \<Rightarrow> bool" where
  "bucket_ok b \<longleftrightarrow>
     0 \<le> step b \<and> step b \<le> maxSteps b \<and> maxSteps b + 1 < 65536 \<and>
     (maxSteps b + 1) * maxPktSize \<le> int (length (buf b))"

text \<open>Examples: a twelve-byte RTP packet with a given sequence number, and a zeroed buffer of two slots.\<close>

definition rtp_packet :: "uint16 \<Rightarrow> byte list" where
  "rtp_packet sn = [0x80, 0x60, ucast (drop_bit 8 sn), ucast sn, 0, 0, 0, 0, 0, 0, 0, 1]"

definition bucket_one :: Bucket where
  "bucket_one = snd (AddPacket (NewBucket (replicate 3000 0)) (rtp_packet 1) 1 True)"

definition bucket_two :: Bucket where
  "bucket_two = snd (AddPacket (snd (AddPacket (NewBucket (replicate 3000 0)) (rtp_packet 5) 5 True)) (rtp_packet 6) 6 True)"

section \<open>TWCC responder (\<^verbatim>\<open>twcc.go\<close>)\<close>

text \<open>
  Go's \<^verbatim>\<open>int64\<close> values are integers; \<open>wrap_int64\<close> is the wrap-around of a 64-bit
  result and \<open>quo\<close> the integer division of Go, which truncates toward zero.
\<close>

definition wrap_int64 :: "int \<Rightarrow> int" where
  "wrap_int64 x = (x + 2 ^ 63) mod 2 ^ 64 - 2 ^ 63"

definition quo :: "int \<Rightarrow> int \<Rightarrow> int" where
  "quo a b = sgn a * sgn b * (\<bar>a\<bar> div \<bar>b\<bar>)"

definition tccReportDelta :: int where
  "tccReportDelta = 100000000"

definition tccReportDeltaAfterMark :: int where
  "tccReportDeltaAfterMark = 50000000"

text \<open>
  Constants of the library \<^verbatim>\<open>pion/rtcp\<close> that the file uses: the packet status symbols,
  the symbol sizes of a status vector chunk, and the format and type of the RTCP header.
\<close>

definition TypeTCCPacketNotReceived :: uint16 where
  "TypeTCCPacketNotReceived = 0"

definition TypeTCCPacketReceivedSmallDelta :: uint16 where
  "TypeTCCPacketReceivedSmallDelta = 1"

definition TypeTCCPacketReceivedLargeDelta :: uint16 where
  "TypeTCCPacketReceivedLargeDelta = 2"

definition TypeTCCPacketReceivedWithoutDelta :: uint16 where
  "TypeTCCPacketReceivedWithoutDelta = 3"

definition TypeTCCSymbolSizeOneBit :: uint16 where
  "TypeTCCSymbolSizeOneBit = 0"

definition TypeTCCSymbolSizeTwoBit :: uint16 where
  "TypeTCCSymbolSizeTwoBit = 1"

definition FormatTCC :: byte where
  "FormatTCC = 15"

definition TypeTransportSpecificFeedback :: byte where
  "TypeTransportSpecificFeedback = 205"

record rtpExtInfo =
  ExtTSN :: uint32
  Timestamp :: int

text \<open>
  The responder. The mutex, the callback (\<open>Push\<close> returns the packet it would pass to it)
  and the field \<^verbatim>\<open>lastExtInfo\<close>, which no function reads or writes, are left out.
  \<open>payload\<close> and \<open>deltas\<close> are the arrays of 100 and 200 bytes.
\<close>

record Responder =
  extInfo :: "rtpExtInfo list"
  lastReport :: int
  cycles :: uint32
  lastExtSN :: uint32
  pktCtn :: byte
  lastSn :: uint16
  mSSRC :: uint32
  sSSRC :: uint32
  len :: uint16
  deltaLen :: uint16
  payload :: "byte list"
  deltas :: "byte list"
  chunk :: uint16

text \<open>\<^verbatim>\<open>NewTransportWideCCResponder(ssrc)\<close>; the random sender SSRC is a parameter.\<close>

definition NewTransportWideCCResponder :: "uint32 \<Rightarrow> uint32 \<Rightarrow> Responder" where
  "NewTransportWideCCResponder rnd ssrc =
     \<lparr>extInfo = [], lastReport = 0, cycles = 0, lastExtSN = 0, pktCtn = 0, lastSn = 0,
      mSSRC = ssrc, sSSRC = rnd, len = 0, deltaLen = 0,
      payload = replicate 100 0, deltas = replicate 200 0, chunk = 0\<rparr>"

definition and_then :: "error + 'a \<Rightarrow> ('a \<Rightarrow> error + 'b) \<Rightarrow> error + 'b" where
  "and_then r f = (case r of Inl e \<Rightarrow> Inl e | Inr x \<Rightarrow> f x)"

definition PutUint32_at :: "byte list \<Rightarrow> int \<Rightarrow> uint32 \<Rightarrow> error + byte list" where
  "PutUint32_at xs off v =
     (if 0 \<le> off \<and> off + 4 \<le> int (length xs)
      then Inr (xs[nat off := ucast (drop_bit 24 v), nat (off + 1) := ucast (drop_bit 16 v),
                   nat (off + 2) := ucast (drop_bit 8 v), nat (off + 3) := ucast v])
      else Inl panicIndexOutOfRange)"

definition writeHeader :: "Responder \<Rightarrow> uint16 \<Rightarrow> uint16 \<Rightarrow> uint32 \<Rightarrow> error + Responder" where
  "writeHeader t bSN packetCount refTime =
     and_then (PutUint32_at (payload t) 0 (sSSRC t)) (\<lambda>p.
     and_then (PutUint32_at p 4 (mSSRC t)) (\<lambda>p.
     and_then (PutUint16_at p 8 bSN) (\<lambda>p.
     and_then (PutUint16_at p 10 packetCount) (\<lambda>p.
     and_then (PutUint32_at p 12 (push_bit 8 refTime OR ucast (pktCtn t))) (\<lambda>p.
     Inr (t\<lparr>payload := p, len := 16\<rparr>))))))"

definition writeRunLengthChunk :: "Responder \<Rightarrow> uint16 \<Rightarrow> uint16 \<Rightarrow> error + Responder" where
  "writeRunLengthChunk t symbol runLength =
     and_then (PutUint16_at (payload t) (uint (len t)) (push_bit 13 symbol OR runLength)) (\<lambda>p.
     Inr (t\<lparr>payload := p, len := len t + 2\<rparr>))"

definition setNBitsOfUint16 :: "uint16 \<Rightarrow> uint16 \<Rightarrow> uint16 \<Rightarrow> uint16 \<Rightarrow> uint16" where
  "setNBitsOfUint16 src sz startIndex val =
     (if startIndex + sz > 16 then 0
      else src OR push_bit (unat (16 - sz - startIndex)) (val AND (push_bit (unat sz) 1 - 1)))"

definition createStatusSymbolChunk :: "Responder \<Rightarrow> uint16 \<Rightarrow> uint16 \<Rightarrow> nat \<Rightarrow> Responder" where
  "createStatusSymbolChunk t symbolSize symbol i =
     (let numOfBits = symbolSize + 1 in
      t\<lparr>chunk := setNBitsOfUint16 (chunk t) numOfBits (numOfBits * word_of_nat i + 2) symbol\<rparr>)"

definition writeStatusSymbolChunk :: "Responder \<Rightarrow> uint16 \<Rightarrow> error + Responder" where
  "writeStatusSymbolChunk t symbolSize =
     (let t = t\<lparr>chunk := setNBitsOfUint16 (chunk t) 1 0 1\<rparr>;
          t = t\<lparr>chunk := setNBitsOfUint16 (chunk t) 1 1 symbolSize\<rparr>
      in and_then (PutUint16_at (payload t) (uint (len t)) (chunk t)) (\<lambda>p.
         Inr (t\<lparr>payload := p, chunk := 0, len := len t + 2\<rparr>)))"

definition writeDelta :: "Responder \<Rightarrow> uint16 \<Rightarrow> uint16 \<Rightarrow> error + Responder" where
  "writeDelta t deltaType delta =
     (if deltaType = TypeTCCPacketReceivedSmallDelta then
        (if unat (deltaLen t) < length (deltas t)
         then Inr (t\<lparr>deltas := (deltas t)[unat (deltaLen t) := ucast delta],
                     deltaLen := deltaLen t + 1\<rparr>)
         else Inl panicIndexOutOfRange)
      else
        and_then (PutUint16_at (deltas t) (uint (deltaLen t)) delta) (\<lambda>d.
        Inr (t\<lparr>deltas := d, deltaLen := deltaLen t + 2\<rparr>)))"

text \<open>
  The first loop of \<^verbatim>\<open>buildTransportCCPacket\<close>, over the sorted entries: entries below
  \<^verbatim>\<open>lastExtSN\<close> are skipped, the numbers between \<^verbatim>\<open>lastExtSN\<close> and the entry get an
  entry with timestamp 0 (unless \<^verbatim>\<open>lastExtSN\<close> is 0), and \<^verbatim>\<open>lastExtSN\<close> moves to the
  entry. The result is \<^verbatim>\<open>tccPkts\<close> and the new \<^verbatim>\<open>lastExtSN\<close>.
\<close>

fun fill_gaps :: "uint32 \<Rightarrow> rtpExtInfo list \<Rightarrow> rtpExtInfo list \<Rightarrow> rtpExtInfo list \<times> uint32" where
  "fill_gaps lastSN tccPkts [] = (tccPkts, lastSN)"
| "fill_gaps lastSN tccPkts (e # es) =
     (if ExtTSN e < lastSN then fill_gaps lastSN tccPkts es
      else
        let lost = (if lastSN \<noteq> 0
                    then map (\<lambda>j. \<lparr>ExtTSN = word_of_nat j, Timestamp = 0\<rparr>)
                           [unat (lastSN + 1) ..< unat (ExtTSN e)]
                    else [])
        in fill_gaps (ExtTSN e) (tccPkts @ lost @ [e]) es)"

text \<open>The variables of the second loop; \<open>statusList\<close> is the deque.\<close>

record build_state =
  resp :: Responder
  firstRecv :: bool
  same :: bool
  timestamp :: int
  lastStatus :: uint16
  maxStatus :: uint16
  statusList :: "uint16 list"

text \<open>
  \<^verbatim>\<open>for i := 0; i < k; i++ { createStatusSymbolChunk(size, statusList.PopFront(), i) }\<close>
  with a fixed bound \<open>k\<close>, from index \<open>i\<close> on.
\<close>

fun pop_fixed :: "Responder \<Rightarrow> uint16 \<Rightarrow> nat \<Rightarrow> nat \<Rightarrow> uint16 list \<Rightarrow> error + Responder \<times> uint16 list" where
  "pop_fixed t symbolSize i 0 xs = Inr (t, xs)"
| "pop_fixed t symbolSize i (Suc k) [] = Inl panicEmptyQueue"
| "pop_fixed t symbolSize i (Suc k) (x # xs) =
     pop_fixed (createStatusSymbolChunk t symbolSize x i) symbolSize (i + 1) k xs"

text \<open>
  \<^verbatim>\<open>for i := 0; i < statusList.Len(); i++ { createStatusSymbolChunk(size, statusList.PopFront(), i) }\<close>:
  the bound is read again in every round, after the pop of the round before.
\<close>

function pop_while :: "Responder \<Rightarrow> uint16 \<Rightarrow> nat \<Rightarrow> uint16 list \<Rightarrow> Responder \<times> uint16 list" where
  "pop_while t symbolSize i xs =
     (if i < length xs then
        (case xs of
           [] \<Rightarrow> (t, xs)
         | x # rest \<Rightarrow> pop_while (createStatusSymbolChunk t symbolSize x i) symbolSize (i + 1) rest)
      else (t, xs))"
  by pat_completeness auto
termination
  by (relation "measure (\<lambda>(t, s, i, xs). length xs)") auto

declare pop_while.simps [simp del]

text \<open>The loop that looks at the statuses left in the deque after a two-bit chunk.\<close>

definition rescan :: "uint16 \<times> bool \<times> uint16 \<Rightarrow> uint16 \<Rightarrow> uint16 \<times> bool \<times> uint16" where
  "rescan v status =
     (case v of (mx, sm, ls) \<Rightarrow>
        (if status > mx then status else mx,
         if sm \<and> ls \<noteq> TypeTCCPacketReceivedWithoutDelta \<and> status \<noteq> ls then False else sm,
         status))"

text \<open>The delta part of a round, for an entry with a timestamp other than 0: the status and the state.\<close>

definition record_delta :: "uint16 \<Rightarrow> uint16 \<Rightarrow> build_state \<Rightarrow> rtpExtInfo \<Rightarrow> error + uint16 \<times> build_state" where
  "record_delta bSN packetCount st stat =
     and_then
       (if \<not> firstRecv st then
          (let refTime = quo (Timestamp stat) 64000 in
           and_then (writeHeader (resp st) bSN packetCount (word_of_int refTime)) (\<lambda>t.
           Inr (st\<lparr>firstRecv := True, timestamp := wrap_int64 (refTime * 64000),
                    resp := t\<lparr>pktCtn := pktCtn t + 1\<rparr>\<rparr>)))
        else Inr st)
       (\<lambda>st.
          let delta = quo (wrap_int64 (Timestamp stat - timestamp st)) 250 in
          and_then
            (if delta < 0 \<or> delta > 255 then
               (let rDelta = sint (word_of_int delta :: uint16);
                    rDelta = (if rDelta \<noteq> delta then (if rDelta > 0 then 32767 else - 32768)
                              else rDelta)
                in and_then (writeDelta (resp st) TypeTCCPacketReceivedLargeDelta (word_of_int rDelta))
                     (\<lambda>t. Inr (TypeTCCPacketReceivedLargeDelta, st\<lparr>resp := t\<rparr>)))
             else
               and_then (writeDelta (resp st) TypeTCCPacketReceivedSmallDelta (word_of_int delta))
                 (\<lambda>t. Inr (TypeTCCPacketReceivedSmallDelta, st\<lparr>resp := t\<rparr>)))
            (\<lambda>(status, st). Inr (status, st\<lparr>timestamp := Timestamp stat\<rparr>)))"

text \<open>The status part of a round.\<close>

definition record_status :: "build_state \<Rightarrow> uint16 \<Rightarrow> error + build_state" where
  "record_status st status =
     and_then
       (if same st \<and> status \<noteq> lastStatus st \<and> lastStatus st \<noteq> TypeTCCPacketReceivedWithoutDelta then
          (if length (statusList st) > 7 then
             and_then (writeRunLengthChunk (resp st) (lastStatus st) (word_of_nat (length (statusList st))))
               (\<lambda>t. Inr (st\<lparr>resp := t, statusList := [],
                              lastStatus := TypeTCCPacketReceivedWithoutDelta,
                              maxStatus := TypeTCCPacketNotReceived, same := True\<rparr>))
           else Inr (st\<lparr>same := False\<rparr>))
        else Inr st)
       (\<lambda>st.
          let st = st\<lparr>statusList := statusList st @ [status]\<rparr>;
              st = (if status > maxStatus st then st\<lparr>maxStatus := status\<rparr> else st);
              st = st\<lparr>lastStatus := status\<rparr>
          in
            if \<not> same st \<and> maxStatus st = TypeTCCPacketReceivedLargeDelta \<and> length (statusList st) > 6 then
              and_then (pop_fixed (resp st) TypeTCCSymbolSizeTwoBit 0 7 (statusList st)) (\<lambda>(t, rest).
              and_then (writeStatusSymbolChunk t TypeTCCSymbolSizeTwoBit) (\<lambda>t.
              case foldl rescan (TypeTCCPacketNotReceived, True, TypeTCCPacketReceivedWithoutDelta) rest of
                (mx, sm, ls) \<Rightarrow>
                  Inr (st\<lparr>resp := t, statusList := rest, lastStatus := ls, maxStatus := mx, same := sm\<rparr>)))
            else if \<not> same st \<and> length (statusList st) > 13 then
              and_then (pop_fixed (resp st) TypeTCCSymbolSizeOneBit 0 14 (statusList st)) (\<lambda>(t, rest).
              and_then (writeStatusSymbolChunk t TypeTCCSymbolSizeOneBit) (\<lambda>t.
              Inr (st\<lparr>resp := t, statusList := rest,
                      lastStatus := TypeTCCPacketReceivedWithoutDelta,
                      maxStatus := TypeTCCPacketNotReceived, same := True\<rparr>)))
            else Inr st)"

definition build_step :: "uint16 \<Rightarrow> uint16 \<Rightarrow> build_state \<Rightarrow> rtpExtInfo \<Rightarrow> error + build_state" where
  "build_step bSN packetCount st stat =
     and_then
       (if Timestamp stat \<noteq> 0 then record_delta bSN packetCount st stat
        else Inr (TypeTCCPacketNotReceived, st))
       (\<lambda>(status, st). record_status st status)"

fun build_loop :: "uint16 \<Rightarrow> uint16 \<Rightarrow> build_state \<Rightarrow> rtpExtInfo list \<Rightarrow> error + build_state" where
  "build_loop bSN packetCount st [] = Inr st"
| "build_loop bSN packetCount st (stat # stats) =
     and_then (build_step bSN packetCount st stat) (\<lambda>st. build_loop bSN packetCount st stats)"

text \<open>The statuses left in the deque after the loop.\<close>

definition flush_statuses :: "build_state \<Rightarrow> error + Responder" where
  "flush_statuses st =
     (if length (statusList st) > 0 then
        (if same st then
           writeRunLengthChunk (resp st) (lastStatus st) (word_of_nat (length (statusList st)))
         else if maxStatus st = TypeTCCPacketReceivedLargeDelta then
           writeStatusSymbolChunk
             (fst (pop_while (resp st) TypeTCCSymbolSizeTwoBit 0 (statusList st)))
             TypeTCCSymbolSizeTwoBit
         else
           writeStatusSymbolChunk
             (fst (pop_while (resp st) TypeTCCSymbolSizeOneBit 0 (statusList st)))
             TypeTCCSymbolSizeOneBit)
      else Inr (resp st))"

text \<open>
  The RTCP header (\<^verbatim>\<open>rtcp.Header.Marshal\<close> of the library) and the assembly of the packet.
  \<open>pLen\<close> is a 16-bit value; the padding loop adds what is missing to a multiple of 4.
\<close>

definition assemble :: "Responder \<Rightarrow> error + byte list" where
  "assemble t =
     (let pLen0 = len t + deltaLen t + 4;
          pad = (pLen0 mod 4 \<noteq> 0);
          padSize = (if pad then 4 - pLen0 mod 4 else 0);
          pLen = pLen0 + padSize;
          hdr = [push_bit 6 2 OR (if pad then push_bit 5 1 else 0) OR FormatTCC,
                 TypeTransportSpecificFeedback,
                 ucast (drop_bit 8 (pLen div 4 - 1)), ucast (pLen div 4 - 1)];
          pkt = replicate (unat pLen) 0
      in
        and_then (copy_at pkt 0 hdr) (\<lambda>pkt.
        and_then (slice (payload t) 0 (uint (len t))) (\<lambda>pl.
        and_then (copy_at pkt 4 pl) (\<lambda>pkt.
        and_then (slice (deltas t) 0 (uint (deltaLen t))) (\<lambda>ds.
        and_then (copy_at pkt (4 + uint (len t)) ds) (\<lambda>pkt.
        if pad then
          (if 0 < length pkt then Inr (pkt[length pkt - 1 := ucast padSize])
           else Inl panicIndexOutOfRange)
        else Inr pkt))))))"

text \<open>
  \<^verbatim>\<open>uint16(tccPkts[0].ExtTSN)\<close>: the loop reads it in a round, where the list is not empty.
\<close>

definition base_sn :: "rtpExtInfo list \<Rightarrow> uint16" where
  "base_sn tccPkts = (case tccPkts of [] \<Rightarrow> 0 | e # es \<Rightarrow> ucast (ExtTSN e))"

text \<open>
  \<^verbatim>\<open>buildTransportCCPacket\<close>: the packet (\<open>None\<close> for nil) and the responder after the
  call. \<^verbatim>\<open>sort.Slice\<close> is not stable: its contract fixes the result only where no two
  entries have the same extended sequence number, and there the result is the list sorted
  by that number. Where a number occurs twice the model stops with
  \<open>sortOrderUnspecified\<close>.
\<close>

definition buildTransportCCPacket :: "Responder \<Rightarrow> error + byte list option \<times> Responder" where
  "buildTransportCCPacket t =
     (if length (extInfo t) = 0 then Inr (None, t)
      else if \<not> distinct (map ExtTSN (extInfo t)) then Inl sortOrderUnspecified
      else
        case fill_gaps (lastExtSN t) [] (sort_key ExtTSN (extInfo t)) of
          (tccPkts, lastSN) \<Rightarrow>
            let t = t\<lparr>lastExtSN := lastSN, extInfo := []\<rparr>;
                st = \<lparr>resp = t, firstRecv = False, same = True, timestamp = 0,
                      lastStatus = TypeTCCPacketReceivedWithoutDelta,
                      maxStatus = TypeTCCPacketNotReceived, statusList = []\<rparr>
            in
              and_then (build_loop (base_sn tccPkts) (word_of_nat (length tccPkts)) st tccPkts) (\<lambda>st.
              and_then (flush_statuses st) (\<lambda>t.
              and_then (assemble t) (\<lambda>pkt.
              Inr (Some pkt, t\<lparr>deltaLen := 0\<rparr>)))))"

text \<open>
  \<^verbatim>\<open>Push(sn, timeNS, marker)\<close>: the packet handed to the feedback callback, if any, and the
  responder after the call. \<open>timeNS\<close> is an \<^verbatim>\<open>int64\<close>.
\<close>

definition record_arrival :: "Responder \<Rightarrow> uint16 \<Rightarrow> int \<Rightarrow> Responder" where
  "record_arrival t sn timeNS =
     (let t = (if sn < 0x0fff \<and> (lastSn t AND 0xffff) > 0xf000
               then t\<lparr>cycles := cycles t + push_bit 16 1\<rparr> else t);
          t = t\<lparr>extInfo := extInfo t @ [\<lparr>ExtTSN = cycles t OR ucast sn, Timestamp = quo timeNS 1000\<rparr>]\<rparr>;
          t = (if lastReport t = 0 then t\<lparr>lastReport := timeNS\<rparr> else t)
      in t\<lparr>lastSn := sn\<rparr>)"

definition Push :: "Responder \<Rightarrow> uint16 \<Rightarrow> int \<Rightarrow> bool \<Rightarrow> error + byte list option \<times> Responder" where
  "Push t sn timeNS marker =
     (let t = record_arrival t sn timeNS;
          delta = wrap_int64 (timeNS - lastReport t)
      in
        if length (extInfo t) > 20 \<and> mSSRC t \<noteq> 0 \<and>
           (delta \<ge> tccReportDelta \<or> length (extInfo t) > 100 \<or>
            (marker \<and> delta \<ge> tccReportDeltaAfterMark))
        then
          and_then (buildTransportCCPacket t) (\<lambda>(pkt, t). Inr (pkt, t\<lparr>lastReport := timeNS\<rparr>))
        else Inr (None, t))"

text \<open>A run of calls of \<open>Push\<close>: the packets produced, in order, and the last responder.\<close>

fun Push_all :: "Responder \<Rightarrow> (uint16 \<times> int \<times> bool) list \<Rightarrow> error + byte list list \<times> Responder" where
  "Push_all t [] = Inr ([], t)"
| "Push_all t ((sn, timeNS, marker) # rest) =
     and_then (Push t sn timeNS marker) (\<lambda>(pkt, t).
     and_then (Push_all t rest) (\<lambda>(pkts, t).
     Inr ((case pkt of None \<Rightarrow> pkts | Some p \<Rightarrow> p # pkts), t)))"



text \<open>
  Example: 21 packets, 5 ms apart from 1 s on, with the sequence numbers 1 to 10 and 12 to 22
  (11 is lost) and the marker on the last.
\<close>

definition twcc_arrivals :: "(uint16 \<times> int \<times> bool) list" where
  "twcc_arrivals =
     map (\<lambda>k. (word_of_nat (if k < 10 then k + 1 else k + 2), 1000000000 + int k * 5000000, k = 20))
       [0..<21]"

definition packets_of :: "error + byte list list \<times> Responder \<Rightarrow> byte list list option" where
  "packets_of r = (case r of Inl e \<Rightarrow> None | Inr (pkts, t) \<Rightarrow> Some pkts)"

text \<open>
  Example: the state of the second loop after one received packet, its arrival at 1 s.
\<close>

definition build_state_example :: build_state where
  "build_state_example =
     \<lparr>resp = NewTransportWideCCResponder 2 1, firstRecv = True, same = True,
      timestamp = 1000000,
      lastStatus = TypeTCCPacketReceivedSmallDelta,
      maxStatus = TypeTCCPacketReceivedSmallDelta, statusList = [1]\<rparr>"



section \<open>Session registry (\<^verbatim>\<open>sfu.go\<close>)\<close>

text \<open>
  A session is a reference (the pointer to the \<^verbatim>\<open>SessionLocal\<close>); \<open>allocated\<close> counts the
  sessions created, so that the next reference is new. \<open>sessions\<close> is the map of the SFU
  from session IDs to sessions. \<open>closeHandlers\<close> keeps, for a session, the ID that the
  closure passed to \<^verbatim>\<open>OnClose\<close> in \<^verbatim>\<open>newSession\<close> has captured. The locks, the
  statistics gauge, the data channels and the transport configuration returned beside the
  session are left out.
\<close>

record SFU =
  sessions :: "string \<rightharpoonup> nat"
  closeHandlers :: "nat \<rightharpoonup> string"
  allocated :: nat

definition NewSFU :: SFU where
  "NewSFU = \<lparr>sessions = Map.empty, closeHandlers = Map.empty, allocated = 0\<rparr>"

text \<open>The body of the closure of \<^verbatim>\<open>newSession\<close>: \<^verbatim>\<open>delete(s.sessions, id)\<close>.\<close>

definition on_close :: "SFU \<Rightarrow> string \<Rightarrow> SFU" where
  "on_close s sid = s\<lparr>sessions := (sessions s)(sid := None)\<rparr>"

definition newSession :: "SFU \<Rightarrow> string \<Rightarrow> nat \<times> SFU" where
  "newSession s sid =
     (let session = allocated s;
          s = s\<lparr>allocated := Suc (allocated s)\<rparr>;
          s = s\<lparr>closeHandlers := (closeHandlers s)(session \<mapsto> sid)\<rparr>;
          s = s\<lparr>sessions := (sessions s)(sid \<mapsto> session)\<rparr>
      in (session, s))"

definition getSession :: "SFU \<Rightarrow> string \<Rightarrow> nat option" where
  "getSession s sid = sessions s sid"

definition GetSession :: "SFU \<Rightarrow> string \<Rightarrow> nat \<times> SFU" where
  "GetSession s sid =
     (case getSession s sid of
        None \<Rightarrow> newSession s sid
      | Some session \<Rightarrow> (session, s))"

text \<open>
  Modelled from the spec: \<^verbatim>\<open>SessionLocal.Close\<close> and \<^verbatim>\<open>SessionLocal.OnClose\<close> are in
  \<^verbatim>\<open>session.go\<close>, which is not among the sources. By the specification (``Session close:
  fires when peer count drops to zero; Session removes itself from SFU registry'') the close
  of a session runs the handler registered for it; the handler itself is \<open>on_close\<close> above.
\<close>

definition Close :: "SFU \<Rightarrow> nat \<Rightarrow> SFU" where
  "Close s session =
     (case closeHandlers s session of
        None \<Rightarrow> s
      | Some sid \<Rightarrow> on_close s sid)"

text \<open>
  The registry as \<open>GetSession\<close> and \<open>Close\<close> keep it: a registered session has its handler
  for the ID it is registered under, and every session with a handler has been allocated.
\<close>

definition sfu_ok :: "SFU \<Rightarrow> bool" where
  "sfu_ok s \<longleftrightarrow>
     (\<forall>sid x. sessions s sid = Some x \<longrightarrow> closeHandlers s x = Some sid) \<and>
     (\<forall>x sid. closeHandlers s x = Some sid \<longrightarrow> x < allocated s)"

text \<open>Example: the registry after the first lookup of the session \<open>room\<close>.\<close>

definition sfu_one :: SFU where
  "sfu_one = snd (GetSession NewSFU ''room'')"

section \<open>Properties of the VP8 parser\<close>

lemma keyframe_tail_eq:
  "keyframe_tail bs idx S p =
     (if length bs < idx + 2 then (Some errShortPacket, p)
      else (None, p\<lparr>IsKeyFrame := (bs ! (idx + 1) AND 0x01 = 0 \<and> S)\<rparr>))"
  by (simp add: keyframe_tail_def rd_def Let_def)

lemma tid_part_fst:
  "fst (tid_part bs idx S K p) =
     (if length bs < idx + (if TemporalSupported p \<or> K then 1 else 0) + 2
      then Some errShortPacket else None)"
  by (simp add: tid_part_def keyframe_tail_eq rd_def Let_def)

lemma tid_part_snd:
  "idx + (if TemporalSupported p \<or> K then 1 else 0) + 2 \<le> length bs \<Longrightarrow>
   snd (tid_part bs idx S K p) =
     (if TemporalSupported p \<or> K then p\<lparr>TID := drop_bit 6 (bs ! (idx + 1) AND 0xc0)\<rparr> else p)
       \<lparr>IsKeyFrame :=
          (bs ! (idx + (if TemporalSupported p \<or> K then 1 else 0) + 1) AND 0x01 = 0 \<and> S)\<rparr>"
  by (cases "TemporalSupported p \<or> K") (simp_all add: tid_part_def keyframe_tail_eq rd_def Let_def)

lemma tl0_part_fst:
  "fst (tl0_part bs idx S K L p) =
     (if length bs < idx + (if L then 1 else 0) + (if TemporalSupported p \<or> K then 1 else 0) + 2
      then Some errShortPacket else None)"
  by (simp add: tl0_part_def tid_part_fst rd_def Let_def)

lemma tl0_part_snd:
  "idx + (if L then 1 else 0) + (if TemporalSupported p \<or> K then 1 else 0) + 2 \<le> length bs \<Longrightarrow>
   snd (tl0_part bs idx S K L p) =
     snd (tid_part bs (idx + (if L then 1 else 0)) S K
            (if L then p\<lparr>TlzIdx := idx + 1, TL0PICIDX := bs ! (idx + 1)\<rparr> else p))"
  by (cases L) (simp_all add: tl0_part_def rd_def Let_def)


lemma picid_part_fst:
  assumes "idx < length bs"
  shows "fst (picid_part bs idx S K L p) =
     (if length bs < idx
          + (if bs ! idx AND 0x80 > 0
             then (if idx + 1 < length bs \<and> bs ! (idx + 1) AND 0x80 > 0 then 2 else 1) else 0)
          + (if L then 1 else 0) + (if TemporalSupported p \<or> K then 1 else 0) + 2
      then Some errShortPacket else None)"
proof (cases "bs ! idx AND 0x80 > 0")
  case False
  with assms show ?thesis by (simp add: picid_part_def rd_def tl0_part_fst)
next
  case True
  show ?thesis
  proof (cases "idx + 1 < length bs")
    case False
    with True assms show ?thesis by (simp add: picid_part_def rd_def Let_def)
  next
    case i: True
    show ?thesis
    proof (cases "bs ! (idx + 1) AND 0x80 > 0")
      case False
      with True i assms show ?thesis
        by (simp add: picid_part_def rd_def Let_def tl0_part_fst)
    next
      case m: True
      show ?thesis
      proof (cases "idx + 2 < length bs")
        case False
        with True i m assms show ?thesis by (simp add: picid_part_def rd_def Let_def)
      next
        case True
        with \<open>bs ! idx AND 0x80 > 0\<close> i m assms show ?thesis
          by (simp add: picid_part_def rd_def Let_def tl0_part_fst)
      qed
    qed
  qed
qed

lemma picid_part_snd:
  assumes "idx < length bs"
    and "idx
          + (if bs ! idx AND 0x80 > 0
             then (if idx + 1 < length bs \<and> bs ! (idx + 1) AND 0x80 > 0 then 2 else 1) else 0)
          + (if L then 1 else 0) + (if TemporalSupported p \<or> K then 1 else 0) + 2 \<le> length bs"
  shows "snd (picid_part bs idx S K L p) =
     snd (tl0_part bs
            (idx + (if bs ! idx AND 0x80 > 0
                    then (if bs ! (idx + 1) AND 0x80 > 0 then 2 else 1) else 0))
            S K L
            (if bs ! idx AND 0x80 > 0 then
               (if bs ! (idx + 1) AND 0x80 > 0
                then p\<lparr>PicIDIdx := idx + 1, MBit := True,
                       PictureID := push_bit 8 (ucast (bs ! (idx + 1) AND 0x7f)) OR ucast (bs ! (idx + 2))\<rparr>
                else p\<lparr>PicIDIdx := idx + 1, PictureID := ucast (bs ! (idx + 1) AND 0x7f)\<rparr>)
             else p))"
proof (cases "bs ! idx AND 0x80 > 0")
  case False
  with assms show ?thesis by (simp add: picid_part_def rd_def)
next
  case True
  with assms(2) have i: "idx + 1 < length bs" by (simp split: if_splits)
  show ?thesis
  proof (cases "bs ! (idx + 1) AND 0x80 > 0")
    case False
    with True i assms(1) show ?thesis
      by (simp add: picid_part_def rd_def Let_def)
  next
    case m: True
    with True i assms(2) have "idx + 2 < length bs" by (simp split: if_splits)
    with True i m assms(1) show ?thesis
      by (simp add: picid_part_def rd_def Let_def)
  qed
qed


lemma Unmarshal_short: "length bs < 2 \<Longrightarrow> fst (Unmarshal p (Some bs)) = Some errShortPacket"
proof -
  assume "length bs < 2"
  then have "length bs = 0 \<or> length bs = 1" by arith
  then show ?thesis
    by (auto simp: Unmarshal_def rd_def Let_def keyframe_tail_eq)
qed

lemma Unmarshal_ext:
  assumes "2 \<le> length bs" "bs ! 0 AND 0x80 > 0"
  shows "Unmarshal p (Some bs) =
     picid_part bs 1 (bs ! 0 AND 0x10 > 0) (bs ! 1 AND 0x10 > 0) (bs ! 1 AND 0x40 > 0)
       (p\<lparr>TemporalSupported := (bs ! 1 AND 0x20 > 0)\<rparr>)"
proof -
  from assms have "bs \<noteq> []" "Suc 0 < length bs" by auto
  with assms show ?thesis by (simp add: Unmarshal_def rd_def Let_def)
qed

lemma Unmarshal_plain:
  assumes "2 \<le> length bs" "\<not> bs ! 0 AND 0x80 > 0"
  shows "Unmarshal p (Some bs) = (None, p\<lparr>IsKeyFrame := (bs ! 1 AND 0x01 = 0 \<and> (bs ! 0 AND 0x10 > 0))\<rparr>)"
proof -
  from assms have "bs \<noteq> []" "Suc 0 < length bs" by auto
  with assms show ?thesis by (simp add: Unmarshal_def rd_def Let_def keyframe_tail_eq)
qed

lemma Unmarshal_fst:
  "fst (Unmarshal p (Some bs)) = (if length bs < vp8_need bs then Some errShortPacket else None)"
proof (cases "length bs < 2")
  case True
  then show ?thesis by (simp add: Unmarshal_short vp8_need_def)
next
  case False
  then have l: "2 \<le> length bs" by simp
  show ?thesis
  proof (cases "bs ! 0 AND 0x80 > 0")
    case False
    with l show ?thesis
      by (simp add: Unmarshal_plain vp8_need_def vp8_desc_len_def)
  next
    case True
    from l have i: "(1::nat) < length bs" by simp
    have e: "1 + 1 = (2::nat)" by simp
    show ?thesis
      unfolding Unmarshal_ext [OF l True] picid_part_fst [OF i] e
      using l True by (simp add: vp8_need_def vp8_desc_len_def vp8_pid_len_def)
  qed
qed

lemma Unmarshal_snd:
  assumes "vp8_need bs \<le> length bs"
  shows "snd (Unmarshal p (Some bs)) = vp8_parsed p bs"
proof -
  from assms have l: "2 \<le> length bs" by (simp add: vp8_need_def split: if_splits)
  show ?thesis
  proof (cases "bs ! 0 AND 0x80 > 0")
    case False
    with l show ?thesis
      by (simp add: Unmarshal_plain vp8_parsed_def)
  next
    case True
    from l have i: "(1::nat) < length bs" by simp
    have e: "1 + 1 = (2::nat)" "1 + 2 = (3::nat)" by simp_all
    define T where "T = (bs ! 1 AND 0x20 > 0)"
    define K where "K = (bs ! 1 AND 0x10 > 0)"
    define L where "L = (bs ! 1 AND 0x40 > 0)"
    define n where "n = vp8_pid_len bs"
    from assms l True have need: "2 + n + (if L then 1 else 0) + (if T \<or> K then 1 else 0) + 1 \<le> length bs"
      by (simp add: vp8_need_def vp8_desc_len_def n_def L_def T_def K_def)
    have n2: "bs ! 1 AND 0x80 > 0 \<Longrightarrow> bs ! 2 AND 0x80 > 0 \<Longrightarrow> n = 2"
      using need by (auto simp: n_def vp8_pid_len_def split: if_splits)
    have n1: "bs ! 1 AND 0x80 > 0 \<Longrightarrow> \<not> bs ! 2 AND 0x80 > 0 \<Longrightarrow> n = 1"
      by (simp add: n_def vp8_pid_len_def)
    have n0: "\<not> bs ! 1 AND 0x80 > 0 \<Longrightarrow> n = 0"
      by (simp add: n_def vp8_pid_len_def)
    have pre: "1 + (if bs ! 1 AND 0x80 > 0
             then (if 1 + 1 < length bs \<and> bs ! (1 + 1) AND 0x80 > 0 then 2 else 1) else 0)
          + (if L then 1 else 0)
          + (if TemporalSupported (p\<lparr>TemporalSupported := T\<rparr>) \<or> K then 1 else 0) + 2 \<le> length bs"
      using need l unfolding e n_def vp8_pid_len_def by simp
    have nn: "(if bs ! 1 AND 0x80 > 0 then (if bs ! 2 AND 0x80 > 0 then 2 else 1) else 0) = n"
      using n0 n1 n2 by auto
    define p1 where "p1 = (if bs ! 1 AND 0x80 > 0 then
               (if bs ! 2 AND 0x80 > 0
                then p\<lparr>TemporalSupported := T, PicIDIdx := 2, MBit := True,
                       PictureID := push_bit 8 (ucast (bs ! 2 AND 0x7f)) OR ucast (bs ! 3)\<rparr>
                else p\<lparr>TemporalSupported := T, PicIDIdx := 2, PictureID := ucast (bs ! 2 AND 0x7f)\<rparr>)
             else p\<lparr>TemporalSupported := T\<rparr>)"
    have ts1: "TemporalSupported p1 = T" by (simp add: p1_def)
    have s1: "snd (Unmarshal p (Some bs)) = snd (tl0_part bs (1 + n) (bs ! 0 AND 0x10 > 0) K L p1)"
      unfolding Unmarshal_ext [OF l True] T_def[symmetric] K_def[symmetric] L_def[symmetric]
      using picid_part_snd [OF i pre, of "bs ! 0 AND 0x10 > 0"]
      unfolding e nn p1_def by simp
    define p2 where "p2 = (if L then p1\<lparr>TlzIdx := 2 + n, TL0PICIDX := bs ! (2 + n)\<rparr> else p1)"
    have ts2: "TemporalSupported p2 = T" by (simp add: p2_def ts1)
    have pre2: "1 + n + (if L then 1 else 0) + (if TemporalSupported p1 \<or> K then 1 else 0) + 2 \<le> length bs"
      using need unfolding ts1 by simp
    have s2: "snd (tl0_part bs (1 + n) (bs ! 0 AND 0x10 > 0) K L p1) =
        snd (tid_part bs (1 + n + (if L then 1 else 0)) (bs ! 0 AND 0x10 > 0) K p2)"
      using tl0_part_snd [OF pre2, of "bs ! 0 AND 0x10 > 0"] by (simp add: p2_def)
    have pre3: "1 + n + (if L then 1 else 0) + (if TemporalSupported p2 \<or> K then 1 else 0) + 2 \<le> length bs"
      using need unfolding ts2 by simp
    have s3: "snd (tid_part bs (1 + n + (if L then 1 else 0)) (bs ! 0 AND 0x10 > 0) K p2) =
        (if T \<or> K then p2\<lparr>TID := drop_bit 6 (bs ! (2 + n + (if L then 1 else 0)) AND 0xc0)\<rparr> else p2)
          \<lparr>IsKeyFrame := (bs ! (2 + n + (if L then 1 else 0) + (if T \<or> K then 1 else 0)) AND 0x01 = 0
                           \<and> (bs ! 0 AND 0x10 > 0))\<rparr>"
      using tid_part_snd [OF pre3, of "bs ! 0 AND 0x10 > 0"] unfolding ts2 by (simp add: ac_simps)
    have d: "vp8_desc_len bs = 2 + n + (if L then 1 else 0) + (if T \<or> K then 1 else 0)"
      using True by (simp add: vp8_desc_len_def n_def L_def T_def K_def)
    have v: "vp8_parsed p bs =
        (if T \<or> K then p2\<lparr>TID := drop_bit 6 (bs ! (2 + n + (if L then 1 else 0)) AND 0xc0)\<rparr> else p2)
          \<lparr>IsKeyFrame := (bs ! (2 + n + (if L then 1 else 0) + (if T \<or> K then 1 else 0)) AND 0x01 = 0
                           \<and> (bs ! 0 AND 0x10 > 0))\<rparr>"
      using True unfolding vp8_parsed_def Let_def d
      unfolding n_def[symmetric] L_def[symmetric] T_def[symmetric] K_def[symmetric]
      by (simp add: p2_def p1_def)
    from s1 s2 s3 v show ?thesis by simp
  qed
qed

text \<open>
  C10. \<open>Unmarshal\<close> is a total function of the receiver and of any payload, nil, empty or
  truncated: it returns nil, the nil-packet error or the short-packet error, and never
  the out-of-range panic, so every index it reads lies inside the payload. A nil payload
  gives the nil-packet error and leaves the receiver as it was; an empty one gives the
  short-packet error. A payload shorter than its descriptor and the byte after it
  (\<open>vp8_need\<close>) gives the short-packet error; every other payload gives nil, with the
  fields of the receiver set from the descriptor as \<open>vp8_parsed\<close> reads them.
\<close>

theorem Unmarshal_total_in_bounds:
  "fst (Unmarshal p pl) \<in> {None, Some errNilPacket, Some errShortPacket}
   \<and> fst (Unmarshal p pl) \<noteq> Some panicIndexOutOfRange
   \<and> Unmarshal p None = (Some errNilPacket, p)
   \<and> fst (Unmarshal p (Some [])) = Some errShortPacket
   \<and> (length bs < vp8_need bs \<longrightarrow> fst (Unmarshal p (Some bs)) = Some errShortPacket)
   \<and> (vp8_need bs \<le> length bs \<longrightarrow> Unmarshal p (Some bs) = (None, vp8_parsed p bs))"
proof -
  have a: "fst (Unmarshal p pl) \<in> {None, Some errNilPacket, Some errShortPacket}"
  proof (cases pl)
    case None
    then show ?thesis by (simp add: Unmarshal_def)
  next
    case (Some cs)
    then show ?thesis by (simp add: Unmarshal_fst)
  qed
  then have b: "fst (Unmarshal p pl) \<noteq> Some panicIndexOutOfRange" by auto
  have c: "Unmarshal p None = (Some errNilPacket, p)" by (simp add: Unmarshal_def)
  have d: "fst (Unmarshal p (Some [])) = Some errShortPacket" by (simp add: Unmarshal_def)
  have e: "fst (Unmarshal p (Some bs)) = Some errShortPacket" if "length bs < vp8_need bs"
    using that by (simp add: Unmarshal_fst)
  have f: "Unmarshal p (Some bs) = (None, vp8_parsed p bs)" if "vp8_need bs \<le> length bs"
  proof -
    from that have "fst (Unmarshal p (Some bs)) = None" by (simp add: Unmarshal_fst)
    moreover from that have "snd (Unmarshal p (Some bs)) = vp8_parsed p bs" by (rule Unmarshal_snd)
    ultimately show ?thesis by (simp add: prod_eq_iff)
  qed
  from a b c d e f show ?thesis by simp
qed

theorem Unmarshal_total_in_bounds_witness:
  "vp8_need vp8_example \<le> length vp8_example
   \<and> Unmarshal vp8_zero (Some vp8_example) =
       (None, \<lparr>TemporalSupported = True, PictureID = 291, PicIDIdx = 2, MBit = True,
               TL0PICIDX = 7, TlzIdx = 4, TID = 1, IsKeyFrame = True\<rparr>)
   \<and> length (take 5 vp8_example) < vp8_need (take 5 vp8_example)
   \<and> fst (Unmarshal vp8_zero (Some (take 5 vp8_example))) = Some errShortPacket"
proof -
  have n: "vp8_need vp8_example \<le> length vp8_example" by code_simp
  have v: "vp8_parsed vp8_zero vp8_example =
       \<lparr>TemporalSupported = True, PictureID = 291, PicIDIdx = 2, MBit = True,
        TL0PICIDX = 7, TlzIdx = 4, TID = 1, IsKeyFrame = True\<rparr>" by code_simp
  have s: "length (take 5 vp8_example) < vp8_need (take 5 vp8_example)" by code_simp
  from Unmarshal_total_in_bounds [of vp8_zero "Some vp8_example" vp8_example] n
  have "Unmarshal vp8_zero (Some vp8_example) = (None, vp8_parsed vp8_zero vp8_example)" by blast
  moreover from Unmarshal_total_in_bounds [of vp8_zero "Some vp8_example" "take 5 vp8_example"] s
  have "fst (Unmarshal vp8_zero (Some (take 5 vp8_example))) = Some errShortPacket" by blast
  ultimately show ?thesis using n v s by simp
qed

section \<open>Properties of the NACK queue\<close>



lemma pairs_step_expired:
  "maxNackTimes \<le> nacked nck \<Longrightarrow>
   pairs_step h st nck = st\<lparr>kf := max (kf st) (nack_sn nck), askKF := (askKF st \<or> kf st < nack_sn nck)\<rparr>"
  by (auto simp: pairs_step_def max_def)

lemma pairs_step_live_kf:
  "\<not> maxNackTimes \<le> nacked e \<Longrightarrow> kf (pairs_step h st e) = kf st \<and> askKF (pairs_step h st e) = askKF st"
  by (simp add: pairs_step_def Let_def)

lemma pairs_step_live_emit:
  "\<not> maxNackTimes \<le> nacked e \<Longrightarrow> kept st = kept st' \<Longrightarrow> np st = np st' \<Longrightarrow> nps st = nps st' \<Longrightarrow>
   kept (pairs_step h st e) = kept (pairs_step h st' e) \<and>
   np (pairs_step h st e) = np (pairs_step h st' e) \<and>
   nps (pairs_step h st e) = nps (pairs_step h st' e)"
  by (simp add: pairs_step_def Let_def)

lemma pairs_loop_emit:
  "kept st = kept st' \<Longrightarrow> np st = np st' \<Longrightarrow> nps st = nps st' \<Longrightarrow>
   kept (foldl (pairs_step h) st xs) = kept (foldl (pairs_step h) st' (filter (\<lambda>e. \<not> maxNackTimes \<le> nacked e) xs)) \<and>
   np (foldl (pairs_step h) st xs) = np (foldl (pairs_step h) st' (filter (\<lambda>e. \<not> maxNackTimes \<le> nacked e) xs)) \<and>
   nps (foldl (pairs_step h) st xs) = nps (foldl (pairs_step h) st' (filter (\<lambda>e. \<not> maxNackTimes \<le> nacked e) xs))"
proof (induction xs arbitrary: st st')
  case Nil
  then show ?case by simp
next
  case (Cons e xs)
  show ?case
  proof (cases "maxNackTimes \<le> nacked e")
    case True
    have "kept (pairs_step h st e) = kept st'" "np (pairs_step h st e) = np st'" "nps (pairs_step h st e) = nps st'"
      using Cons.prems True by (simp_all add: pairs_step_expired)
    from Cons.IH [OF this] True show ?thesis by simp
  next
    case False
    from pairs_step_live_emit [OF False Cons.prems, of h]
    have "kept (pairs_step h st e) = kept (pairs_step h st' e)"
         "np (pairs_step h st e) = np (pairs_step h st' e)"
         "nps (pairs_step h st e) = nps (pairs_step h st' e)" by simp_all
    from Cons.IH [OF this] False show ?thesis by simp
  qed
qed

lemma pairs_loop_kept_sn:
  "map nack_sn (kept (foldl (pairs_step h) st xs)) =
   map nack_sn (kept st) @ map nack_sn (filter (\<lambda>e. \<not> maxNackTimes \<le> nacked e) xs)"
proof (induction xs arbitrary: st)
  case Nil
  then show ?case by simp
next
  case (Cons e xs)
  show ?case
    by (cases "maxNackTimes \<le> nacked e") (simp_all add: Cons.IH pairs_step_expired, simp add: pairs_step_def Let_def)
qed

lemma pairs_loop_kf_mono: "kf st \<le> kf (foldl (pairs_step h) st xs)"
proof (induction xs arbitrary: st)
  case Nil
  then show ?case by simp
next
  case (Cons e xs)
  have "kf st \<le> kf (pairs_step h st e)"
    by (cases "maxNackTimes \<le> nacked e") (simp_all add: pairs_step_expired pairs_step_live_kf)
  also have "\<dots> \<le> kf (foldl (pairs_step h) (pairs_step h st e) xs)" by (rule Cons.IH)
  finally show ?case by simp
qed

lemma pairs_loop_kf_covers:
  "e \<in> set xs \<Longrightarrow> maxNackTimes \<le> nacked e \<Longrightarrow> nack_sn e \<le> kf (foldl (pairs_step h) st xs)"
proof (induction xs arbitrary: st)
  case Nil
  then show ?case by simp
next
  case (Cons x xs)
  show ?case
  proof (cases "e = x")
    case True
    with Cons.prems have "nack_sn e \<le> kf (pairs_step h st x)" by (simp add: pairs_step_expired)
    also have "\<dots> \<le> kf (foldl (pairs_step h) (pairs_step h st x) xs)" by (rule pairs_loop_kf_mono)
    finally show ?thesis by simp
  next
    case False
    with Cons.prems have "e \<in> set xs" by simp
    from Cons.IH [OF this Cons.prems(2)] show ?thesis by simp
  qed
qed

lemma pairs_loop_askKF:
  "askKF (foldl (pairs_step h) st xs) \<longleftrightarrow>
   askKF st \<or> (\<exists>e\<in>set xs. maxNackTimes \<le> nacked e \<and> kf st < nack_sn e)"
proof (induction xs arbitrary: st)
  case Nil
  then show ?case by simp
next
  case (Cons x xs)
  show ?case
  proof (cases "maxNackTimes \<le> nacked x")
    case True
    show ?thesis
    proof (cases "kf st < nack_sn x")
      case True
      with \<open>maxNackTimes \<le> nacked x\<close> show ?thesis
        by (auto simp: Cons.IH pairs_step_expired)
    next
      case False
      with \<open>maxNackTimes \<le> nacked x\<close> have "pairs_step h st x = st"
        by (simp add: pairs_step_def)
      with False show ?thesis by (auto simp: Cons.IH)
    qed
  next
    case False
    then show ?thesis by (auto simp: Cons.IH pairs_step_live_kf)
  qed
qed


lemma push_kfSN: "kfSN (push n extSN) = kfSN n"
  by (simp add: push_def Let_def)

lemma remove_kfSN: "kfSN (remove n extSN) = kfSN n"
  by (simp add: remove_def Let_def)

lemma pairs_kfSN_mono: "kfSN n \<le> kfSN (snd (snd (pairs n hsn)))"
  using pairs_loop_kf_mono [of "pairs_init n" hsn "nacks n"]
  by (simp add: pairs_def Let_def pairs_init_def)

lemma flagging_above: "sorted_wrt (<) (k # flagging k xs)"
proof (induction xs arbitrary: k)
  case Nil
  then show ?case by simp
next
  case (Cons e es)
  show ?case
  proof (cases "nacked e \<ge> maxNackTimes \<and> nack_sn e > k")
    case True
    from Cons.IH [of "nack_sn e"] have s: "sorted_wrt (<) (nack_sn e # flagging (nack_sn e) es)" .
    then have "\<forall>y\<in>set (flagging (nack_sn e) es). nack_sn e < y" by simp
    with True have "\<forall>y\<in>set (flagging (nack_sn e) es). k < y" by auto
    with s True show ?thesis by simp
  next
    case False
    then have "flagging k (e # es) = flagging k es" by auto
    with Cons.IH [of k] show ?thesis by simp
  qed
qed

lemma pairs_loop_flagging:
  "kf (foldl (pairs_step h) st xs) = last (kf st # flagging (kf st) xs)
   \<and> askKF (foldl (pairs_step h) st xs) = (askKF st \<or> flagging (kf st) xs \<noteq> [])"
proof (induction xs arbitrary: st)
  case Nil
  then show ?case by simp
next
  case (Cons e es)
  show ?case
  proof (cases "maxNackTimes \<le> nacked e")
    case True
    show ?thesis
    proof (cases "kf st < nack_sn e")
      case k: True
      with True have "kf (pairs_step h st e) = nack_sn e" "askKF (pairs_step h st e)"
        by (simp_all add: pairs_step_def)
      with Cons.IH [of "pairs_step h st e"] True k show ?thesis by simp
    next
      case k: False
      with True have "pairs_step h st e = st" by (simp add: pairs_step_def)
      with Cons.IH [of st] True k show ?thesis by simp
    qed
  next
    case False
    with Cons.IH [of "pairs_step h st e"] pairs_step_live_kf [OF False, of h st]
    show ?thesis by simp
  qed
qed

lemma pairs_flagging:
  "kfSN (snd (snd (pairs n hsn))) = last (kfSN n # flagging (kfSN n) (nacks n))
   \<and> fst (snd (pairs n hsn)) = (flagging (kfSN n) (nacks n) \<noteq> [])"
proof (cases "nacks n = []")
  case True
  then show ?thesis by (simp add: pairs_def)
next
  case False
  with pairs_loop_flagging [of hsn "pairs_init n" "nacks n"] show ?thesis
    by (simp add: pairs_def Let_def pairs_init_def)
qed

lemma sorted_chain:
  fixes xs :: "uint32 list"
  shows "sorted_wrt (<) xs \<Longrightarrow> xs \<noteq> [] \<Longrightarrow> sorted_wrt (<) (last xs # R) \<Longrightarrow> sorted_wrt (<) (xs @ R)"
proof (induction xs)
  case Nil
  then show ?case by simp
next
  case (Cons x xs)
  show ?case
  proof (cases "xs = []")
    case True
    with Cons.prems show ?thesis by simp
  next
    case False
    with Cons.prems have s: "sorted_wrt (<) (xs @ R)" by (simp add: Cons.IH)
    from False have "last xs \<in> set xs" by simp
    with Cons.prems False have "x < last xs" "\<forall>y\<in>set R. last xs < y" by auto
    then have "\<forall>y\<in>set R. x < y" by auto
    with Cons.prems s show ?thesis by auto
  qed
qed

lemma flag_events_sorted: "sorted_wrt (<) (kfSN n # flag_events n ops)"
proof (induction n ops rule: flag_events.induct)
  case (1 n)
  then show ?case by simp
next
  case (2 n extSN ops)
  then show ?case by (simp add: push_kfSN)
next
  case (3 n extSN ops)
  then show ?case by (simp add: remove_kfSN)
next
  case (4 n hsn ops)
  let ?F = "kfSN n # flagging (kfSN n) (nacks n)"
  from "4.IH" pairs_flagging [of n hsn]
  have "sorted_wrt (<) (last ?F # flag_events (snd (snd (pairs n hsn))) ops)" by simp
  from sorted_chain [OF flagging_above _ this] show ?case by simp
qed

lemma ask_flags_count: "length (filter id (ask_flags n ops)) \<le> length (flag_events n ops)"
proof (induction n ops rule: ask_flags.induct)
  case (4 n hsn ops)
  show ?case
  proof (cases "fst (snd (pairs n hsn))")
    case True
    with pairs_flagging [of n hsn] have "flagging (kfSN n) (nacks n) \<noteq> []" by simp
    then have "1 \<le> length (flagging (kfSN n) (nacks n))" by (cases "flagging (kfSN n) (nacks n)") simp_all
    with "4.IH" True show ?thesis by simp
  next
    case False
    with "4.IH" show ?thesis by simp
  qed
qed simp_all

text \<open>
  C2 (as amended). Let an entry of the queue have reached \<open>maxNackTimes\<close> (3) requests. The
  round of the loop of \<open>pairs\<close> that reads it leaves the entries written back, the pair
  under construction and the emitted pairs as they were, raises the keyframe flag exactly
  when its sequence number exceeds the last keyframe-requested one, and sets that number to
  the larger of the two. For the whole call: the pairs returned are those of the queue
  without its expired entries, the queue after the call holds the sequence numbers of the
  non-expired entries only (so the entry is gone when sequence numbers are distinct), the
  returned flag is raised exactly when some expired entry exceeds the keyframe number the
  queue had, that is when some sequence number takes the branch that sets the keyframe
  number (\<open>flagging\<close>), and afterwards the keyframe number is the last of those and at
  least the entry's sequence number. Over a run of pushes, removals and calls of \<open>pairs\<close>
  the sequence numbers that raise the flag increase strictly from the keyframe number the
  queue had: no sequence number raises the flag twice, one at or below the keyframe number
  raises none, and the flags raised are at most as many as those numbers, since the
  entries that expire in one call share one flag.
\<close>

theorem pairs_expired_entry:
  assumes "nck \<in> set (nacks n)" and "maxNackTimes \<le> nacked nck"
  shows "kept (pairs_step hsn st nck) = kept st
       \<and> np (pairs_step hsn st nck) = np st
       \<and> nps (pairs_step hsn st nck) = nps st
       \<and> askKF (pairs_step hsn st nck) = (askKF st \<or> kf st < nack_sn nck)
       \<and> kf (pairs_step hsn st nck) = max (kf st) (nack_sn nck)
       \<and> fst (pairs n hsn) =
           fst (pairs (n\<lparr>nacks := filter (\<lambda>e. \<not> maxNackTimes \<le> nacked e) (nacks n)\<rparr>) hsn)
       \<and> map nack_sn (nacks (snd (snd (pairs n hsn)))) =
           map nack_sn (filter (\<lambda>e. \<not> maxNackTimes \<le> nacked e) (nacks n))
       \<and> (distinct (map nack_sn (nacks n)) \<longrightarrow>
            nack_sn nck \<notin> nack_sn ` set (nacks (snd (snd (pairs n hsn)))))
       \<and> fst (snd (pairs n hsn)) =
           (\<exists>e\<in>set (nacks n). maxNackTimes \<le> nacked e \<and> kfSN n < nack_sn e)
       \<and> nack_sn nck \<le> kfSN (snd (snd (pairs n hsn)))
       \<and> fst (snd (pairs n hsn)) = (flagging (kfSN n) (nacks n) \<noteq> [])
       \<and> kfSN (snd (snd (pairs n hsn))) = last (kfSN n # flagging (kfSN n) (nacks n))
       \<and> sorted_wrt (<) (kfSN n # flag_events n ops)
       \<and> distinct (flag_events n ops)
       \<and> length (filter id (ask_flags n ops)) \<le> length (flag_events n ops)"
proof -
  let ?live = "filter (\<lambda>e. \<not> maxNackTimes \<le> nacked e) (nacks n)"
  let ?st = "foldl (pairs_step hsn) (pairs_init n) (nacks n)"
  from assms(1) have ne: "nacks n \<noteq> []" by auto
  have step: "pairs_step hsn st nck =
      st\<lparr>kf := max (kf st) (nack_sn nck), askKF := (askKF st \<or> kf st < nack_sn nck)\<rparr>"
    using assms(2) by (rule pairs_step_expired)
  have emit: "kept ?st = kept (foldl (pairs_step hsn) (pairs_init n) ?live)"
             "np ?st = np (foldl (pairs_step hsn) (pairs_init n) ?live)"
             "nps ?st = nps (foldl (pairs_step hsn) (pairs_init n) ?live)"
    using pairs_loop_emit [of "pairs_init n" "pairs_init n" hsn "nacks n"] by simp_all
  have init: "pairs_init (n\<lparr>nacks := ?live\<rparr>) = pairs_init n"
    by (simp add: pairs_init_def)
  have p1: "fst (pairs n hsn) = fst (pairs (n\<lparr>nacks := ?live\<rparr>) hsn)"
  proof (cases "?live = []")
    case True
    with emit ne show ?thesis by (simp add: pairs_def Let_def pairs_init_def)
  next
    case False
    with emit ne init show ?thesis by (simp add: pairs_def Let_def)
  qed
  have p2: "map nack_sn (nacks (snd (snd (pairs n hsn)))) = map nack_sn ?live"
    using ne pairs_loop_kept_sn [of hsn "pairs_init n" "nacks n"]
    by (simp add: pairs_def Let_def pairs_init_def)
  have p3: "nack_sn nck \<notin> nack_sn ` set (nacks (snd (snd (pairs n hsn))))"
    if d: "distinct (map nack_sn (nacks n))"
  proof
    assume "nack_sn nck \<in> nack_sn ` set (nacks (snd (snd (pairs n hsn))))"
    then have "nack_sn nck \<in> set (map nack_sn ?live)" using p2 by (metis set_map)
    then obtain e where e: "e \<in> set (nacks n)" "\<not> maxNackTimes \<le> nacked e" "nack_sn e = nack_sn nck"
      by auto
    from d have "inj_on nack_sn (set (nacks n))" by (simp add: distinct_map)
    with e(1,3) assms(1) have "e = nck" by (auto dest: inj_onD)
    with e(2) assms(2) show False by simp
  qed
  have p4: "fst (snd (pairs n hsn)) =
      (\<exists>e\<in>set (nacks n). maxNackTimes \<le> nacked e \<and> kfSN n < nack_sn e)"
    using ne pairs_loop_askKF [of hsn "pairs_init n" "nacks n"]
    by (simp add: pairs_def Let_def pairs_init_def)
  have p5: "nack_sn nck \<le> kfSN (snd (snd (pairs n hsn)))"
    using ne pairs_loop_kf_covers [OF assms, of hsn "pairs_init n"]
    by (simp add: pairs_def Let_def)
  have p6: "fst (snd (pairs n hsn)) = (flagging (kfSN n) (nacks n) \<noteq> [])"
    and p7: "kfSN (snd (snd (pairs n hsn))) = last (kfSN n # flagging (kfSN n) (nacks n))"
    using pairs_flagging [of n hsn] by simp_all
  have p8: "sorted_wrt (<) (kfSN n # flag_events n ops)" by (rule flag_events_sorted)
  then have "sorted_wrt (<) (flag_events n ops)" by simp
  then have p9: "distinct (flag_events n ops)" by (simp add: strict_sorted_iff)
  have p10: "length (filter id (ask_flags n ops)) \<le> length (flag_events n ops)"
    by (rule ask_flags_count)
  have q1: "kept (pairs_step hsn st nck) = kept st" using step by simp
  have q2: "np (pairs_step hsn st nck) = np st" using step by simp
  have q3: "nps (pairs_step hsn st nck) = nps st" using step by simp
  have q4: "askKF (pairs_step hsn st nck) = (askKF st \<or> kf st < nack_sn nck)" using step by simp
  have q5: "kf (pairs_step hsn st nck) = max (kf st) (nack_sn nck)" using step by simp
  have q6: "distinct (map nack_sn (nacks n)) \<longrightarrow>
            nack_sn nck \<notin> nack_sn ` set (nacks (snd (snd (pairs n hsn))))"
    using p3 by blast
  show ?thesis
    by (intro conjI) (rule q1 q2 q3 q4 q5 p1 p2 q6 p4 p5 p6 p7 p8 p9 p10)+
qed

theorem pairs_expired_entry_witness:
  "\<lparr>nack_sn = 5, nacked = 3\<rparr> \<in> set (nacks nack_example)
   \<and> maxNackTimes \<le> nacked \<lparr>nack_sn = 5, nacked = 3\<rparr>
   \<and> distinct (map nack_sn (nacks nack_example))
   \<and> fst (snd (pairs nack_example 100))
   \<and> map nack_sn (nacks (snd (snd (pairs nack_example 100)))) = [9]
   \<and> 5 \<notin> nack_sn ` set (nacks (snd (snd (pairs nack_example 100))))
   \<and> 5 \<le> kfSN (snd (snd (pairs nack_example 100)))
   \<and> flagging (kfSN nack_example) (nacks nack_example) = [5]
   \<and> kfSN (snd (snd (pairs nack_example 100))) = 5
   \<and> flag_events nack_example
        [PairsOp 100, PushOp 5, PairsOp 100, PairsOp 100, PairsOp 100, PairsOp 100, PairsOp 100] = [5, 9]
   \<and> ask_flags nack_example
        [PairsOp 100, PushOp 5, PairsOp 100, PairsOp 100, PairsOp 100, PairsOp 100, PairsOp 100] =
        [True, False, False, True, False, False]
   \<and> distinct (flag_events nack_example
        [PairsOp 100, PushOp 5, PairsOp 100, PairsOp 100, PairsOp 100, PairsOp 100, PairsOp 100])"
proof -
  let ?ops = "[PairsOp 100, PushOp 5, PairsOp 100, PairsOp 100, PairsOp 100, PairsOp 100, PairsOp 100]"
  have h1: "\<lparr>nack_sn = 5, nacked = 3\<rparr> \<in> set (nacks nack_example)"
    by (simp add: nack_example_def)
  have h2: "maxNackTimes \<le> nacked \<lparr>nack_sn = 5, nacked = 3\<rparr>"
    by (simp add: maxNackTimes_def)
  have d: "distinct (map nack_sn (nacks nack_example))"
    by (simp add: nack_example_def)
  have f: "filter (\<lambda>e. \<not> maxNackTimes \<le> nacked e) (nacks nack_example) = [\<lparr>nack_sn = 9, nacked = 0\<rparr>]"
    by (simp add: nack_example_def maxNackTimes_def)
  have k: "kfSN nack_example = 0" by (simp add: nack_example_def)
  have g: "flagging (kfSN nack_example) (nacks nack_example) = [5]" by code_simp
  have e: "flag_events nack_example ?ops = [5, 9]" by code_simp
  have a: "ask_flags nack_example ?ops = [True, False, False, True, False, False]" by code_simp
  note t = pairs_expired_entry [OF h1 h2, of 100 "pairs_init nack_example" ?ops]
  from t d f have t1: "fst (snd (pairs nack_example 100))"
    "map nack_sn (nacks (snd (snd (pairs nack_example 100)))) = [9]"
    "5 \<notin> nack_sn ` set (nacks (snd (snd (pairs nack_example 100))))"
    "5 \<le> kfSN (snd (snd (pairs nack_example 100)))"
    "kfSN (snd (snd (pairs nack_example 100))) = 5"
    "distinct (flag_events nack_example ?ops)"
    unfolding g by (auto simp: nack_example_def maxNackTimes_def)
  from h1 h2 d t1 g e a show ?thesis by (simp only: simp_thms)
qed

text \<open>
  C2 as stated fails in its last part. The sequence numbers 10, 11 and 12 are missing and
  each is requested three times without arriving: the fourth call of \<open>pairs\<close> drops the
  three entries and raises one keyframe flag, not one for each of them. With 10 missing
  first and 5 missing after the flag for 10, the entry for 5 reaches three requests and
  is dropped with no flag at all, in the run and in the single call on the queue that
  holds it.
\<close>

theorem pairs_keyframe_flags_fewer_than_missing:
  "ask_flags newNACKQueue
     [PushOp 10, PushOp 11, PushOp 12, PairsOp 100, PairsOp 100, PairsOp 100, PairsOp 100] =
     [False, False, False, True]
   \<and> ask_flags newNACKQueue
     [PushOp 10, PairsOp 100, PairsOp 100, PairsOp 100, PairsOp 100,
      PushOp 5, PairsOp 100, PairsOp 100, PairsOp 100, PairsOp 100] =
     [False, False, False, True, False, False, False, False]
   \<and> pairs \<lparr>nacks = [\<lparr>nack_sn = 5, nacked = 3\<rparr>], kfSN = 10\<rparr> 100 =
     ([], False, \<lparr>nacks = [], kfSN = 10\<rparr>)"
  by code_simp

lemma Search_bounds: "i \<le> j \<Longrightarrow> i \<le> Search i j f \<and> Search i j f \<le> j"
proof (induction i j f rule: Search.induct)
  case (1 i j f)
  show ?case
  proof (cases "i < j")
    case True
    let ?h = "(i + j) div 2"
    show ?thesis
    proof (cases "f ?h")
      case True
      with \<open>i < j\<close> "1.IH"(2) [of ?h] have "i \<le> Search i ?h f \<and> Search i ?h f \<le> ?h" by simp
      moreover have "Search i j f = Search i ?h f"
        using True \<open>i < j\<close> by (subst Search.simps) (simp add: Let_def)
      moreover have "?h \<le> j" using \<open>i < j\<close> by simp
      ultimately show ?thesis by simp
    next
      case False
      with \<open>i < j\<close> "1.IH"(1) [of ?h] have "?h + 1 \<le> Search (?h + 1) j f \<and> Search (?h + 1) j f \<le> j" by simp
      moreover have "Search i j f = Search (?h + 1) j f"
        using False \<open>i < j\<close> by (subst Search.simps) (simp add: Let_def)
      moreover have "i \<le> ?h" using \<open>i < j\<close> by arith
      ultimately show ?thesis by simp
    qed
  next
    case False
    with "1.prems" show ?thesis by (subst Search.simps, subst Search.simps) simp
  qed
qed

lemma push_length_new:
  assumes "extSN \<notin> nack_sn ` set (nacks n)"
  shows "length (nacks (push n extSN)) = length (nacks n) + 1"
proof -
  have "\<not> (i < length (nacks n) \<and> nack_sn (nacks n ! i) = extSN)" for i
    using assms nth_mem by fastforce
  moreover have "Search 0 (length (nacks n)) f \<le> length (nacks n)" for f
    using Search_bounds [of 0 "length (nacks n)" f] by simp
  ultimately show ?thesis
    by (simp add: push_def Let_def)
qed

lemma shift_down_set: "ys \<noteq> [] \<Longrightarrow> set (tl ys @ [last ys]) \<subseteq> set ys"
  by (cases ys) auto

lemma insert_at_set: "set (take i xs @ [x] @ drop i xs) = insert x (set xs)"
proof -
  have "set (take i xs) \<union> set (drop i xs) = set xs"
    by (metis append_take_drop_id set_append)
  then show ?thesis by auto
qed

lemma shift_or_keep_set:
  "ys \<noteq> [] \<Longrightarrow> set (if length ys \<ge> m then tl ys @ [last ys] else ys) \<subseteq> set ys"
  using shift_down_set [of ys] by simp

lemma push_sns:
  "nack_sn ` set (nacks (push n extSN)) \<subseteq> insert extSN (nack_sn ` set (nacks n))"
proof -
  define i where "i = Search 0 (length (nacks n)) (\<lambda>i. nack_sn (nacks n ! i) \<ge> extSN)"
  define nck where "nck = \<lparr>nack_sn = extSN, nacked = 0\<rparr>"
  define ys where "ys = (if i = length (nacks n) then nacks n @ [nck]
                         else take i (nacks n) @ [nck] @ drop i (nacks n))"
  have ys: "set ys = insert nck (set (nacks n))"
    unfolding ys_def using insert_at_set [of i "nacks n" nck] by auto
  have ne: "ys \<noteq> []" unfolding ys_def by simp
  have p: "nacks (push n extSN) =
      (if i < length (nacks n) \<and> nack_sn (nacks n ! i) = extSN then nacks n
       else (if length ys \<ge> maxNackCache then tl ys @ [last ys] else ys))"
    unfolding push_def Let_def i_def nck_def ys_def by simp
  have "set (nacks (push n extSN)) \<subseteq> insert nck (set (nacks n))"
    using shift_or_keep_set [OF ne, of maxNackCache] ys unfolding p by auto
  then have "nack_sn ` set (nacks (push n extSN)) \<subseteq> nack_sn ` insert nck (set (nacks n))"
    by (rule image_mono)
  then show ?thesis by (simp add: nck_def)
qed

lemma foldl_push_length:
  "distinct xs \<Longrightarrow> set xs \<inter> nack_sn ` set (nacks n) = {} \<Longrightarrow>
   length (nacks (foldl push n xs)) = length (nacks n) + length xs"
proof (induction xs arbitrary: n)
  case Nil
  then show ?case by simp
next
  case (Cons x xs)
  from Cons.prems have x: "x \<notin> nack_sn ` set (nacks n)" by auto
  have "set xs \<inter> nack_sn ` set (nacks (push n x)) = {}"
    using push_sns [of n x] Cons.prems by auto
  with Cons.IH [of "push n x"] Cons.prems have
    "length (nacks (foldl push (push n x) xs)) = length (nacks (push n x)) + length xs" by simp
  with push_length_new [OF x] show ?case by simp
qed

lemma seq_1_101_distinct: "distinct (map word_of_nat [1..<102] :: uint32 list)"
proof -
  have "inj_on (word_of_nat :: nat \<Rightarrow> uint32) {1..<102}"
  proof (rule inj_onI)
    fix x y :: nat
    assume x: "x \<in> {1..<102}" and y: "y \<in> {1..<102}"
      and e: "(word_of_nat x :: uint32) = word_of_nat y"
    from e have "unat (word_of_nat x :: uint32) = unat (word_of_nat y :: uint32)" by simp
    with x y show "x = y" by (simp add: unat_of_nat)
  qed
  then show ?thesis by (simp add: distinct_map)
qed

text \<open>
  C3. A hundred and one pushes of the sequence numbers 1 to 101 on a new queue leave 101
  entries in it, one more than \<open>maxNackCache\<close>: the push that finds the queue full moves
  the entries one place down and keeps the length.
\<close>

theorem push_exceeds_maxNackCache:
  "length (nacks (foldl push newNACKQueue (map word_of_nat [1..<102]))) = 101
   \<and> maxNackCache < length (nacks (foldl push newNACKQueue (map word_of_nat [1..<102])))"
  using foldl_push_length [OF seq_1_101_distinct, of newNACKQueue]
  by (simp add: newNACKQueue_def maxNackCache_def)

text \<open>
  C6. The queue holds the single missing sequence number 65536 (16-bit value 0) and the
  head is at 70000. \<open>pairs\<close> counts a request for it (its count goes from 0 to 1) and
  returns no pair at all. With 65536, 65537 and 65539 missing, all three are counted and the
  one pair returned, with base 1 and the bit for 3, leaves 65536 out.
\<close>

theorem pairs_drops_packet_id_zero:
  "pairs (push newNACKQueue 65536) 70000 =
     ([], False, \<lparr>nacks = [\<lparr>nack_sn = 65536, nacked = 1\<rparr>], kfSN = 0\<rparr>)
   \<and> pairs (foldl push newNACKQueue [65536, 65537, 65539]) 70000 =
     ([\<lparr>PacketID = 1, LostPackets = 2\<rparr>], False,
      \<lparr>nacks = [\<lparr>nack_sn = 65536, nacked = 1\<rparr>, \<lparr>nack_sn = 65537, nacked = 1\<rparr>,
                \<lparr>nack_sn = 65539, nacked = 1\<rparr>], kfSN = 0\<rparr>)"
  by code_simp

text \<open>
  The example of the header comment of \<^verbatim>\<open>nack.go\<close>: the missing numbers 100, 101, 103
  and 105 give the one pair with base 100 and the bits 0, 2 and 4. Next to the 16-bit wrap
  the test \<^verbatim>\<open>uint16(nck.sn) > np.PacketID+16\<close> overflows and 65531 starts a pair of
  its own one step after the base 65530.
\<close>

lemma pairs_header_example:
  "fst (pairs (foldl push newNACKQueue [100, 101, 103, 105]) 70000) =
     [\<lparr>PacketID = 100, LostPackets = 0b10101\<rparr>]"
  by code_simp

lemma pairs_splits_near_wrap:
  "fst (pairs (foldl push newNACKQueue [65530, 65531]) 70000) =
     [\<lparr>PacketID = 65530, LostPackets = 0\<rparr>, \<lparr>PacketID = 65531, LostPackets = 0\<rparr>]"
  by code_simp

section \<open>Properties of the packet bucket\<close>


lemma zeros_3000: "replicate 3000 (0::byte) = [0, 0] @ replicate 12 0 @ replicate 2986 0"
proof -
  have "replicate 3000 (0::byte) = replicate 2 0 @ replicate 12 0 @ replicate 2986 0"
    by (simp flip: replicate_add)
  then show ?thesis by (simp add: numeral_2_eq_2)
qed

lemma length_rtp_packet: "length (rtp_packet sn) = 12"
  by (simp add: rtp_packet_def)

lemma push_first_slot:
  assumes "buf b = replicate 3000 0" "step b = 0" "maxSteps b = 1"
  shows "push_bucket b (rtp_packet sn) =
     (Inr (rtp_packet sn), b\<lparr>buf := 0 # 12 # rtp_packet sn @ replicate 2986 0, step := 1\<rparr>)"
proof -
  have p: "PutUint16_at (replicate 3000 0) 0 12 = Inr (0 # 12 # replicate 12 0 @ replicate 2986 0)"
    unfolding zeros_3000 by (simp add: PutUint16_at_def)
  have c: "copy_at (0 # 12 # replicate 12 0 @ replicate 2986 0) 2 (rtp_packet sn) =
      Inr (0 # 12 # rtp_packet sn @ replicate 2986 0)"
    by (simp add: copy_at_def length_rtp_packet)
  have s: "slice (0 # 12 # rtp_packet sn @ replicate 2986 0) 2 14 = Inr (rtp_packet sn)"
    by (simp add: slice_def length_rtp_packet)
  show ?thesis
    unfolding push_bucket_def assms length_rtp_packet
    by (simp add: p c s maxPktSize_def assms)
qed

lemma bucket_one_eq:
  "bucket_one = \<lparr>buf = 0 # 12 # rtp_packet 1 @ replicate 2986 0, init = True, step = 1, headSN = 1, maxSteps = 1\<rparr>"
proof -
  have "AddPacket (NewBucket (replicate 3000 0)) (rtp_packet 1) 1 True =
     push_bucket \<lparr>buf = replicate 3000 0, init = True, step = 0, headSN = 1, maxSteps = 1\<rparr> (rtp_packet 1)"
    by (simp add: AddPacket_def NewBucket_def maxPktSize_def)
  then show ?thesis
    by (simp add: bucket_one_def push_first_slot)
qed

lemma bucket_one_ok: "bucket_ok bucket_one \<and> init bucket_one"
  by (simp add: bucket_one_eq bucket_ok_def maxPktSize_def length_rtp_packet)

subsection \<open>The bucket invariant\<close>

lemma skip_steps_fields:
  "buf (skip_steps k b) = buf b \<and> init (skip_steps k b) = init b \<and>
   headSN (skip_steps k b) = headSN b \<and> maxSteps (skip_steps k b) = maxSteps b"
  by (induction k arbitrary: b) (simp_all add: Let_def)

lemma skip_steps_range:
  "0 \<le> step b \<Longrightarrow> step b \<le> maxSteps b \<Longrightarrow>
   0 \<le> step (skip_steps k b) \<and> step (skip_steps k b) \<le> maxSteps b"
proof (induction k arbitrary: b)
  case 0
  then show ?case by simp
next
  case (Suc k)
  let ?b = "let b = b\<lparr>step := step b + 1\<rparr> in if step b \<ge> maxSteps b then b\<lparr>step := 0\<rparr> else b"
  have "0 \<le> step ?b" "step ?b \<le> maxSteps ?b" "maxSteps ?b = maxSteps b"
    using Suc.prems by (simp_all add: Let_def)
  with Suc.IH [of ?b] show ?case by simp
qed

lemma skip_steps_ok: "bucket_ok b \<Longrightarrow> bucket_ok (skip_steps k b)"
  using skip_steps_range [of b k] skip_steps_fields [of k b]
  by (simp add: bucket_ok_def)

lemma slot_bounds:
  assumes "0 \<le> pos" "pos \<le> maxSteps b" "(maxSteps b + 1) * maxPktSize \<le> int (length (buf b))"
  shows "0 \<le> pos * maxPktSize" "pos * maxPktSize + maxPktSize \<le> int (length (buf b))"
proof -
  show "0 \<le> pos * maxPktSize" using assms(1) by (simp add: maxPktSize_def)
  have "pos * maxPktSize + maxPktSize = (pos + 1) * maxPktSize" by (simp add: algebra_simps)
  also have "\<dots> \<le> (maxSteps b + 1) * maxPktSize"
    using assms(2) by (simp add: maxPktSize_def)
  finally show "pos * maxPktSize + maxPktSize \<le> int (length (buf b))" using assms(3) by simp
qed

lemma push_bucket_fields:
  assumes "bucket_ok b"
  shows "step (snd (push_bucket b pkt)) = (if step b + 1 > maxSteps b then 0 else step b + 1)"
    and "headSN (snd (push_bucket b pkt)) = headSN b"
    and "maxSteps (snd (push_bucket b pkt)) = maxSteps b"
    and "init (snd (push_bucket b pkt)) = init b"
    and "length (buf (snd (push_bucket b pkt))) = length (buf b)"
proof -
  from assms have r: "0 \<le> step b" "step b \<le> maxSteps b"
    "(maxSteps b + 1) * maxPktSize \<le> int (length (buf b))" by (simp_all add: bucket_ok_def)
  from slot_bounds [OF r] have o: "0 \<le> step b * maxPktSize"
    "step b * maxPktSize + 1500 \<le> int (length (buf b))" by (simp_all add: maxPktSize_def)
  then obtain buf1 where p: "PutUint16_at (buf b) (step b * maxPktSize) (word_of_nat (length pkt)) = Inr buf1"
    and l1: "length buf1 = length (buf b)"
    by (simp add: PutUint16_at_def)
  from o l1 obtain buf2 where c: "copy_at buf1 (step b * maxPktSize + 2) pkt = Inr buf2"
    and l2: "length buf2 = length (buf b)"
    by (auto simp: copy_at_def)
  show "step (snd (push_bucket b pkt)) = (if step b + 1 > maxSteps b then 0 else step b + 1)"
    and "headSN (snd (push_bucket b pkt)) = headSN b"
    and "maxSteps (snd (push_bucket b pkt)) = maxSteps b"
    and "init (snd (push_bucket b pkt)) = init b"
    and "length (buf (snd (push_bucket b pkt))) = length (buf b)"
    by (simp_all add: push_bucket_def p c l2 Let_def)
qed

lemma push_bucket_ok: "bucket_ok b \<Longrightarrow> bucket_ok (snd (push_bucket b pkt))"
  using push_bucket_fields [of b pkt] by (simp add: bucket_ok_def)


lemma get_pos_range:
  assumes "bucket_ok b" "get_pos b sn = Some pos"
  shows "0 \<le> pos \<and> pos \<le> maxSteps b"
proof -
  define k where "k = uint (headSN b - sn + 1)"
  have k: "0 \<le> k" by (simp add: k_def)
  from assms(2) have "pos = (if step b - k < 0 then maxSteps b + (step b - k) + 1 else step b - k)"
    and "\<not> (step b - k < 0 \<and> (step b - k) * -1 > maxSteps b + 1)"
    by (auto simp: get_pos_def k_def Let_def split: if_splits)
  moreover from assms(1) have "0 \<le> step b" "step b \<le> maxSteps b" by (simp_all add: bucket_ok_def)
  ultimately show ?thesis using k by (auto split: if_splits)
qed

lemma get_sn_field:
  assumes "get b sn = Inr (Some p)" "4 \<le> length p"
  shows "rtp_sn p = Some sn"
proof -
  from assms(1) obtain pos where pos: "get_pos b sn = Some pos"
    by (auto simp: get_def split: option.splits)
  define off where "off = pos * maxPktSize"
  from assms(1) pos obtain l where
    s: "Uint16_at (buf b) (off + 4) = Inr sn" and
    l: "Uint16_at (buf b) off = Inr l" and
    p: "slice (buf b) (off + 2) (off + 2 + uint l) = Inr p"
    by (auto simp: get_def off_def Let_def split: if_splits sum.splits)
  from l have o: "0 \<le> off" by (simp add: Uint16_at_def split: if_splits)
  from p have pe: "p = take (nat (uint l)) (drop (nat (off + 2)) (buf b))"
    by (auto simp: slice_def split: if_splits)
  from s have sn: "sn = push_bit 8 (ucast (buf b ! nat (off + 4))) OR ucast (buf b ! nat (off + 4 + 1))"
    and e: "off + 4 + 2 \<le> int (length (buf b))"
    by (auto simp: Uint16_at_def split: if_splits)
  from assms(2) pe have n: "4 \<le> nat (uint l)" by simp
  have a: "nat (off + 2) + 2 = nat (off + 4)" "nat (off + 2) + 3 = nat (off + 4 + 1)"
    using o by (simp_all add: nat_add_distrib)
  have "p ! 2 = buf b ! nat (off + 4)" "p ! 3 = buf b ! nat (off + 4 + 1)"
    unfolding pe using n e o a by simp_all
  with sn assms(2) show ?thesis by (simp add: rtp_sn_def)
qed

lemma get_not_found:
  assumes "bucket_ok b"
    and "\<forall>pos. 0 \<le> pos \<and> pos \<le> maxSteps b \<longrightarrow> slot_sn b pos \<noteq> Inr sn"
  shows "get b sn = Inr None"
proof (cases "get_pos b sn")
  case None
  then show ?thesis by (simp add: get_def)
next
  case (Some pos)
  from get_pos_range [OF assms(1) Some] have r: "0 \<le> pos" "pos \<le> maxSteps b" by simp_all
  from assms(1) have "(maxSteps b + 1) * maxPktSize \<le> int (length (buf b))" by (simp add: bucket_ok_def)
  from slot_bounds [OF r this] have o: "0 \<le> pos * maxPktSize"
    "pos * maxPktSize + 1500 \<le> int (length (buf b))" by (simp_all add: maxPktSize_def)
  then obtain s where s: "Uint16_at (buf b) (pos * maxPktSize + 4) = Inr s"
    by (simp add: Uint16_at_def)
  with assms(2) r have "s \<noteq> sn" by (auto simp: slot_sn_def)
  with Some s o show ?thesis by (simp add: get_def Let_def)
qed

text \<open>
  C1. A zeroed bucket of two slots has received the packet with sequence number 1 and
  nothing else. Asked for sequence number 0, \<open>get\<close> finds the sequence number bytes of a
  slot never written equal to 0 and returns the empty, non-nil slice: \<open>GetPacket\<close>
  reports success with zero bytes where the packet-not-found error is due, and the bytes
  returned have no sequence number field.
\<close>

theorem get_empty_packet_for_sn_zero:
  "get bucket_one 0 = Inr (Some []) \<and> rtp_sn [] \<noteq> Some 0
   \<and> GetPacket bucket_one 1500 0 = Inr (0, [])"
  by (simp add: bucket_one_eq get_def get_pos_def Uint16_at_def slice_def maxPktSize_def
      length_rtp_packet nth_append Let_def GetPacket_def rtp_sn_def)

text \<open>
  What holds of \<open>get\<close> on every bucket: a packet of at least four bytes that it returns
  has the number asked for in its sequence number field (lemma \<open>get_sn_field\<close>), and on a
  well-formed bucket where no slot has the number asked for in its sequence number bytes
  it finds nothing (lemma \<open>get_not_found\<close>). The bucket of the example returns the packet
  it has received.
\<close>

lemma get_bucket_one: "get bucket_one 1 = Inr (Some (rtp_packet 1))"
  by (simp add: bucket_one_eq get_def get_pos_def Uint16_at_def slice_def maxPktSize_def
      length_rtp_packet nth_append Let_def, simp add: rtp_packet_def)


lemma uint_word_of_int_16:
  "0 \<le> x \<Longrightarrow> x < 65536 \<Longrightarrow> uint (word_of_int x :: uint16) = x"
  by (simp add: uint_word_of_int take_bit_int_eq_self)

lemma too_old_test:
  assumes "bucket_ok b"
  shows "(headSN b - sn \<ge> word_of_int (maxSteps b + 1)) \<longleftrightarrow> maxSteps b < uint (headSN b - sn)"
proof -
  from assms have "0 \<le> maxSteps b + 1" "maxSteps b + 1 < 65536" by (simp_all add: bucket_ok_def)
  then have u: "uint (word_of_int (maxSteps b + 1) :: uint16) = maxSteps b + 1"
    by (rule uint_word_of_int_16)
  show ?thesis unfolding word_le_def u by auto
qed

lemma in_window_offset:
  assumes "bucket_ok b" "uint (headSN b - sn) \<le> maxSteps b"
  shows "uint (headSN b - sn + 1) = uint (headSN b - sn) + 1"
proof -
  from assms have "uint (headSN b - sn) + 1 < 65536" by (simp add: bucket_ok_def)
  then show ?thesis
    by (simp add: uint_word_ariths take_bit_int_eq_self)
qed

lemma set_pos_range:
  assumes "bucket_ok b" "uint (headSN b - sn) \<le> maxSteps b"
  shows "0 \<le> set_pos b sn \<and> set_pos b sn \<le> maxSteps b"
proof -
  define k where "k = uint (headSN b - sn + 1)"
  from in_window_offset [OF assms] assms(2) have k: "1 \<le> k" "k \<le> maxSteps b + 1"
    by (simp_all add: k_def)
  have "set_pos b sn = (if step b - k < 0 then maxSteps b + (step b - k) + 1 else step b - k)"
    by (simp add: set_pos_def k_def Let_def)
  moreover from assms(1) have "0 \<le> step b" "step b \<le> maxSteps b" by (simp_all add: bucket_ok_def)
  ultimately show ?thesis using k by (auto split: if_splits)
qed

lemma set_bucket_cases:
  assumes "bucket_ok b"
  shows "set_bucket b sn pkt =
     (if maxSteps b < uint (headSN b - sn) then (Inl errPacketTooOld, b)
      else if slot_sn b (set_pos b sn) = Inr sn then (Inl errRTXPacket, b)
      else set_bucket b sn pkt)"
    and "\<not> maxSteps b < uint (headSN b - sn) \<Longrightarrow> slot_sn b (set_pos b sn) \<noteq> Inr sn \<Longrightarrow>
      fst (set_bucket b sn pkt) \<noteq> Inl errPacketTooOld \<and> fst (set_bucket b sn pkt) \<noteq> Inl errRTXPacket"
proof -
  note t = too_old_test [OF assms, of sn]
  have in_w: "0 \<le> set_pos b sn * maxPktSize \<and> set_pos b sn * maxPktSize + 1500 \<le> int (length (buf b))"
    if w: "\<not> maxSteps b < uint (headSN b - sn)"
  proof -
    from w have "uint (headSN b - sn) \<le> maxSteps b" by simp
    from set_pos_range [OF assms this] have r: "0 \<le> set_pos b sn" "set_pos b sn \<le> maxSteps b" by simp_all
    from assms have "(maxSteps b + 1) * maxPktSize \<le> int (length (buf b))" by (simp add: bucket_ok_def)
    from slot_bounds [OF r this] show ?thesis by (simp add: maxPktSize_def)
  qed
  show "set_bucket b sn pkt =
     (if maxSteps b < uint (headSN b - sn) then (Inl errPacketTooOld, b)
      else if slot_sn b (set_pos b sn) = Inr sn then (Inl errRTXPacket, b)
      else set_bucket b sn pkt)"
  proof (cases "maxSteps b < uint (headSN b - sn)")
    case True
    with t show ?thesis by (simp add: set_bucket_def)
  next
    case False
    from in_w [OF False] False t show ?thesis
      by (auto simp: set_bucket_def slot_sn_def Let_def split: sum.splits)
  qed
  show "fst (set_bucket b sn pkt) \<noteq> Inl errPacketTooOld \<and> fst (set_bucket b sn pkt) \<noteq> Inl errRTXPacket"
    if w: "\<not> maxSteps b < uint (headSN b - sn)" and n: "slot_sn b (set_pos b sn) \<noteq> Inr sn"
  proof -
    from in_w [OF w] have o: "0 \<le> set_pos b sn * maxPktSize"
      "set_pos b sn * maxPktSize + 1500 \<le> int (length (buf b))" by simp_all
    then obtain s where s: "Uint16_at (buf b) (set_pos b sn * maxPktSize + 4) = Inr s"
      by (simp add: Uint16_at_def)
    with n have ne: "s \<noteq> sn" by (simp add: slot_sn_def)
    from o obtain buf1 where p: "PutUint16_at (buf b) (set_pos b sn * maxPktSize) (word_of_nat (length pkt)) = Inr buf1"
      and l1: "length buf1 = length (buf b)"
      by (simp add: PutUint16_at_def)
    from o l1 obtain buf2 where c: "copy_at buf1 (set_pos b sn * maxPktSize + 2) pkt = Inr buf2"
      by (auto simp: copy_at_def)
    have "fst (set_bucket b sn pkt) =
        slice buf2 (set_pos b sn * maxPktSize + 2) (set_pos b sn * maxPktSize + 2 + int (length pkt))"
      using w t o s ne p c by (simp add: set_bucket_def Let_def)
    then show ?thesis by (simp add: slice_def)
  qed
qed

lemma slot_packet_sn:
  assumes "slot_packet b pos = Inr p" "4 \<le> length p"
  shows "\<exists>s. slot_sn b pos = Inr s \<and> rtp_sn p = Some s"
proof -
  define off where "off = pos * maxPktSize"
  from assms(1) obtain l where
    l: "Uint16_at (buf b) off = Inr l" and
    p: "slice (buf b) (off + 2) (off + 2 + uint l) = Inr p"
    by (auto simp: slot_packet_def off_def split: sum.splits)
  from l have o: "0 \<le> off" by (simp add: Uint16_at_def split: if_splits)
  from p have pe: "p = take (nat (uint l)) (drop (nat (off + 2)) (buf b))"
    and hi: "off + 2 + uint l \<le> int (length (buf b))"
    by (auto simp: slice_def split: if_splits)
  from assms(2) pe have n: "4 \<le> nat (uint l)" by simp
  then have n': "4 \<le> uint l" by linarith
  with hi have e: "off + 4 + 2 \<le> int (length (buf b))" by simp
  have a: "nat (off + 2) + 2 = nat (off + 4)" "nat (off + 2) + 3 = nat (off + 4 + 1)"
    using o by (simp_all add: nat_add_distrib)
  have "p ! 2 = buf b ! nat (off + 4)" "p ! 3 = buf b ! nat (off + 4 + 1)"
    unfolding pe using n e o a by simp_all
  with assms(2) have "rtp_sn p =
      Some (push_bit 8 (ucast (buf b ! nat (off + 4))) OR ucast (buf b ! nat (off + 4 + 1)))"
    by (simp add: rtp_sn_def)
  moreover from o e have "slot_sn b pos =
      Inr (push_bit 8 (ucast (buf b ! nat (off + 4))) OR ucast (buf b ! nat (off + 4 + 1)))"
    by (simp add: slot_sn_def Uint16_at_def off_def)
  ultimately show ?thesis by simp
qed

text \<open>
  C8 (as amended). On a well-formed bucket that has already received a packet,
  \<open>AddPacket\<close> with \<open>latest = False\<close> fails with the too-old error exactly when the
  distance of \<open>sn\<close> behind \<open>headSN\<close> (modulo \<open>2^16\<close>) exceeds \<open>maxSteps\<close>. Where the
  slot computed for \<open>sn\<close> holds a packet of at least four bytes, it fails with the
  already-received error exactly when \<open>sn\<close> is inside that window and the sequence number
  field of that packet is \<open>sn\<close>. On either error it returns the bucket as it was.
\<close>

theorem AddPacket_out_of_order_errors:
  assumes "bucket_ok b" and "init b"
  shows "(fst (AddPacket b pkt sn False) = Inl errPacketTooOld \<longleftrightarrow> maxSteps b < uint (headSN b - sn))
       \<and> (slot_packet b (set_pos b sn) = Inr p \<and> 4 \<le> length p \<longrightarrow>
            (fst (AddPacket b pkt sn False) = Inl errRTXPacket \<longleftrightarrow>
               uint (headSN b - sn) \<le> maxSteps b \<and> rtp_sn p = Some sn))
       \<and> (fst (AddPacket b pkt sn False) = Inl errPacketTooOld \<or>
          fst (AddPacket b pkt sn False) = Inl errRTXPacket
            \<longrightarrow> snd (AddPacket b pkt sn False) = b)"
proof -
  have a: "AddPacket b pkt sn False = set_bucket b sn pkt"
    using assms(2) by (simp add: AddPacket_def)
  have r: "rtp_sn p = Some sn \<longleftrightarrow> slot_sn b (set_pos b sn) = Inr sn"
    if "slot_packet b (set_pos b sn) = Inr p \<and> 4 \<le> length p"
    using slot_packet_sn [of b "set_pos b sn" p] that by auto
  have m: "(fst (AddPacket b pkt sn False) = Inl errPacketTooOld \<longleftrightarrow> maxSteps b < uint (headSN b - sn))
       \<and> (fst (AddPacket b pkt sn False) = Inl errRTXPacket \<longleftrightarrow>
            uint (headSN b - sn) \<le> maxSteps b \<and> slot_sn b (set_pos b sn) = Inr sn)
       \<and> (fst (AddPacket b pkt sn False) = Inl errPacketTooOld \<or>
          fst (AddPacket b pkt sn False) = Inl errRTXPacket
            \<longrightarrow> snd (AddPacket b pkt sn False) = b)"
  proof (cases "maxSteps b < uint (headSN b - sn)")
    case True
    with set_bucket_cases(1) [OF assms(1), of sn pkt] show ?thesis
      unfolding a by simp
  next
    case False
    show ?thesis
    proof (cases "slot_sn b (set_pos b sn) = Inr sn")
      case True
      with False set_bucket_cases(1) [OF assms(1), of sn pkt] show ?thesis
        unfolding a by simp
    next
      case n: False
      from set_bucket_cases(2) [OF assms(1) False n, of pkt] False n show ?thesis
        unfolding a by simp
    qed
  qed
  with r show ?thesis by blast
qed

theorem AddPacket_out_of_order_errors_witness:
  "bucket_ok bucket_one \<and> init bucket_one
   \<and> slot_packet bucket_one (set_pos bucket_one 1) = Inr (rtp_packet 1)
   \<and> 4 \<le> length (rtp_packet 1)
   \<and> rtp_sn (rtp_packet 1) = Some 1
   \<and> fst (AddPacket bucket_one (rtp_packet 1) 1 False) = Inl errRTXPacket
   \<and> snd (AddPacket bucket_one (rtp_packet 1) 1 False) = bucket_one
   \<and> fst (AddPacket bucket_one (rtp_packet 65000) 65000 False) = Inl errPacketTooOld
   \<and> snd (AddPacket bucket_one (rtp_packet 65000) 65000 False) = bucket_one"
proof -
  have ok: "bucket_ok bucket_one" and i: "init bucket_one" using bucket_one_ok by simp_all
  have s: "slot_packet bucket_one (set_pos bucket_one 1) = Inr (rtp_packet 1)"
    by (simp add: bucket_one_eq slot_packet_def set_pos_def Uint16_at_def slice_def maxPktSize_def
        length_rtp_packet nth_append)
  have l: "4 \<le> length (rtp_packet 1)" by (simp add: length_rtp_packet)
  have q: "rtp_sn (rtp_packet 1) = Some 1" by (simp add: rtp_sn_def rtp_packet_def)
  have w: "uint (headSN bucket_one - 1) \<le> maxSteps bucket_one"
    "maxSteps bucket_one < uint (headSN bucket_one - 65000)"
    by (simp_all add: bucket_one_eq)
  from AddPacket_out_of_order_errors [OF ok i, of "rtp_packet 1" 1 "rtp_packet 1"]
    AddPacket_out_of_order_errors [OF ok i, of "rtp_packet 65000" 65000 "rtp_packet 1"] s l q w ok i
  show ?thesis by simp
qed

text \<open>
  C8 as stated fails on a bucket that has not received a packet: \<open>AddPacket\<close> first sets
  \<open>headSN\<close> to \<open>sn - 1\<close>, then \<open>set\<close> rejects the packet as too old, and \<open>headSN\<close> has
  changed from 0 to 6.
\<close>

theorem AddPacket_first_out_of_order_changes_headSN:
  "fst (AddPacket (NewBucket (replicate 3000 0)) (rtp_packet 7) 7 False) = Inl errPacketTooOld
   \<and> headSN (NewBucket (replicate 3000 0)) = 0
   \<and> headSN (snd (AddPacket (NewBucket (replicate 3000 0)) (rtp_packet 7) 7 False)) = 6"
  by (simp add: AddPacket_def NewBucket_def set_bucket_def maxPktSize_def)


text \<open>
  The sequence number bytes of a slot never written are 0. On the bucket of the example
  the slot computed for sequence number 0 holds no packet, and \<open>AddPacket\<close> rejects
  the packet 0, which has not arrived before, as already received.
\<close>

lemma AddPacket_rtx_on_unwritten_slot:
  "slot_packet bucket_one (set_pos bucket_one 0) = Inr []
   \<and> fst (AddPacket bucket_one (rtp_packet 0) 0 False) = Inl errRTXPacket"
  by (simp add: bucket_one_eq slot_packet_def set_pos_def AddPacket_def set_bucket_def
      Uint16_at_def slice_def maxPktSize_def length_rtp_packet nth_append Let_def word_le_def)

lemma slot_pos_mod:
  fixes p s k m :: int
  assumes "0 \<le> p" "p \<le> m" "p = s - k \<or> p = m + (s - k) + 1"
  shows "p = (s - k) mod (m + 1)"
proof -
  from assms(1,2) have "p mod (m + 1) = p" by simp
  moreover from assms(3) have "p mod (m + 1) = (s - k) mod (m + 1)"
  proof
    assume "p = s - k" then show ?thesis by simp
  next
    assume "p = m + (s - k) + 1"
    then have "p = (s - k) + (m + 1)" by simp
    then show ?thesis by (simp only: mod_add_self2)
  qed
  ultimately show ?thesis by simp
qed

text \<open>
  C7 (as amended). On a well-formed bucket the slot position that \<open>get\<close> uses, and the
  one that \<open>set\<close> uses once its too-old test has passed, is
  \<open>step - (headSN - sn + 1)\<close> reduced modulo \<open>maxSteps + 1\<close>, the number of slots; and
  there \<open>get\<close> uses the position of \<open>set\<close>.
\<close>

theorem slot_position_mod:
  assumes "bucket_ok b"
  shows "(get_pos b sn = Some pos \<longrightarrow>
            pos = (step b - uint (headSN b - sn + 1)) mod (maxSteps b + 1))
       \<and> (\<not> headSN b - sn \<ge> word_of_int (maxSteps b + 1) \<longrightarrow>
            set_pos b sn = (step b - uint (headSN b - sn + 1)) mod (maxSteps b + 1)
            \<and> get_pos b sn = Some (set_pos b sn))"
proof -
  define k where "k = uint (headSN b - sn + 1)"
  have g: "pos = (step b - k) mod (maxSteps b + 1)" if p: "get_pos b sn = Some pos"
  proof -
    from get_pos_range [OF assms p] have "0 \<le> pos" "pos \<le> maxSteps b" by simp_all
    moreover from p have "pos = step b - k \<or> pos = maxSteps b + (step b - k) + 1"
      by (auto simp: get_pos_def k_def Let_def split: if_splits)
    ultimately show ?thesis by (rule slot_pos_mod)
  qed
  have s: "set_pos b sn = (step b - k) mod (maxSteps b + 1) \<and> get_pos b sn = Some (set_pos b sn)"
    if w: "\<not> headSN b - sn \<ge> word_of_int (maxSteps b + 1)"
  proof -
    from w too_old_test [OF assms, of sn] have i: "uint (headSN b - sn) \<le> maxSteps b" by simp
    from set_pos_range [OF assms i] have r: "0 \<le> set_pos b sn" "set_pos b sn \<le> maxSteps b" by simp_all
    moreover have "set_pos b sn = step b - k \<or> set_pos b sn = maxSteps b + (step b - k) + 1"
      by (simp add: set_pos_def k_def Let_def)
    ultimately have "set_pos b sn = (step b - k) mod (maxSteps b + 1)" by (rule slot_pos_mod)
    moreover have "get_pos b sn = Some (set_pos b sn)"
    proof -
      from in_window_offset [OF assms i] i have "k \<le> maxSteps b + 1" by (simp add: k_def)
      moreover from assms have "0 \<le> step b" by (simp add: bucket_ok_def)
      ultimately have "\<not> (step b - k) * -1 > maxSteps b + 1" by simp
      then show ?thesis by (simp add: get_pos_def set_pos_def k_def Let_def)
    qed
    ultimately show ?thesis by simp
  qed
  from g s show ?thesis unfolding k_def by blast
qed

lemma first_packet_eq:
  "snd (AddPacket (NewBucket (replicate 3000 0)) (rtp_packet sn) sn True) =
     \<lparr>buf = 0 # 12 # rtp_packet sn @ replicate 2986 0, init = True, step = 1, headSN = sn, maxSteps = 1\<rparr>"
proof -
  have "AddPacket (NewBucket (replicate 3000 0)) (rtp_packet sn) sn True =
     push_bucket \<lparr>buf = replicate 3000 0, init = True, step = 0, headSN = sn, maxSteps = 1\<rparr> (rtp_packet sn)"
    by (simp add: AddPacket_def NewBucket_def maxPktSize_def)
  then show ?thesis
    by (simp add: push_first_slot)
qed

lemma bucket_two_fields:
  "step bucket_two = 0 \<and> headSN bucket_two = 6 \<and> maxSteps bucket_two = 1 \<and> bucket_ok bucket_two"
proof -
  define b5 where "b5 = \<lparr>buf = 0 # 12 # rtp_packet 5 @ replicate 2986 0, init = True, step = 1, headSN = 5, maxSteps = 1\<rparr>"
  have ok: "bucket_ok (b5\<lparr>headSN := 6\<rparr>)"
    by (simp add: b5_def bucket_ok_def maxPktSize_def length_rtp_packet)
  have "AddPacket b5 (rtp_packet 6) 6 True = push_bucket (b5\<lparr>headSN := 6\<rparr>) (rtp_packet 6)"
    by (simp add: AddPacket_def b5_def)
  then have "bucket_two = snd (push_bucket (b5\<lparr>headSN := 6\<rparr>) (rtp_packet 6))"
    by (simp add: bucket_two_def first_packet_eq b5_def)
  with push_bucket_fields [OF ok, of "rtp_packet 6"] push_bucket_ok [OF ok, of "rtp_packet 6"]
  show ?thesis by (simp add: b5_def)
qed

theorem slot_position_mod_witness:
  "bucket_ok bucket_two \<and> get_pos bucket_two 6 = Some 1
   \<and> \<not> headSN bucket_two - 6 \<ge> word_of_int (maxSteps bucket_two + 1)
   \<and> set_pos bucket_two 6 = 1
   \<and> (step bucket_two - uint (headSN bucket_two - 6 + 1)) mod (maxSteps bucket_two + 1) = 1"
  using slot_position_mod [of bucket_two 6 1] bucket_two_fields
  by (simp add: get_pos_def set_pos_def)


lemma uint16_bytes:
  "push_bit 8 (ucast (ucast (drop_bit 8 v) :: byte)) OR ucast (ucast v :: byte) = (v :: uint16)"
  by (rule bit_word_eqI) (auto simp: bit_simps)

lemma nat_int_plus: "nat (int q + 1) = q + 1" "nat (int q + 2) = q + 2"
  "nat (int q + 4) = q + 4" "nat (int q + 4 + 1) = q + 5"
  by simp_all

lemma Uint16_at_nat:
  "q + 2 \<le> length xs \<Longrightarrow>
   Uint16_at xs (int q) = Inr (push_bit 8 (ucast (xs ! q)) OR ucast (xs ! (q + 1)))"
  by (simp add: Uint16_at_def nat_int_plus)

lemma slice_nat:
  "lo \<le> hi \<Longrightarrow> hi \<le> length xs \<Longrightarrow>
   slice xs (int lo) (int hi) = Inr (take (hi - lo) (drop lo xs))"
  by (simp add: slice_def nat_diff_distrib')

lemma push_bucket_get:
  assumes ok: "bucket_ok b" and len: "4 \<le> length pkt" "length pkt \<le> 1498"
    and sn: "rtp_sn pkt = Some (headSN b)"
  shows "get (snd (push_bucket b pkt)) (headSN b) = Inr (Some pkt)"
proof -
  define q where "q = nat (step b * maxPktSize)"
  define n where "n = length (buf b)"
  define v where "v = (word_of_nat (length pkt) :: uint16)"
  from ok have r: "0 \<le> step b" "step b \<le> maxSteps b"
    "(maxSteps b + 1) * maxPktSize \<le> int (length (buf b))" by (simp_all add: bucket_ok_def)
  from slot_bounds [OF r] have ob: "0 \<le> step b * maxPktSize"
    "step b * maxPktSize + 1500 \<le> int n" by (simp_all add: maxPktSize_def n_def)
  then have e: "step b * maxPktSize = int q" and qn: "q + 1500 \<le> n" by (simp_all add: q_def)
  define buf1 where "buf1 = (buf b)[q := ucast (drop_bit 8 v), q + 1 := ucast v]"
  define buf2 where "buf2 = take (q + 2) buf1 @ pkt @ drop (q + 2 + length pkt) buf1"
  have l1: "length buf1 = n" by (simp add: buf1_def n_def)
  have p: "PutUint16_at (buf b) (int q) v = Inr buf1"
    using qn by (simp add: PutUint16_at_def buf1_def n_def nat_int_plus)
  have c: "copy_at buf1 (int q + 2) pkt = Inr buf2"
    using qn len l1 by (simp add: copy_at_def buf2_def nat_int_plus)
  have l2: "length buf2 = n" using qn len l1 by (simp add: buf2_def)
  define st where "st = (if step b + 1 > maxSteps b then 0 else step b + 1)"
  have pb: "snd (push_bucket b pkt) = b\<lparr>buf := buf2, step := st\<rparr>"
    unfolding push_bucket_def e v_def[symmetric] by (simp add: p c Let_def st_def)
  have gp: "get_pos (b\<lparr>buf := buf2, step := st\<rparr>) (headSN b) = Some (step b)"
    using r by (simp add: get_pos_def st_def Let_def)
  have t: "length (take (q + 2) buf1) = q + 2" using qn l1 by simp
  have n0: "buf2 ! q = ucast (drop_bit 8 v)" "buf2 ! (q + 1) = ucast v"
    using qn l1 by (simp_all add: buf2_def nth_append buf1_def n_def)
  have nk: "buf2 ! (q + 2 + i) = pkt ! i" if "i < length pkt" for i
  proof -
    have "buf2 ! (length (take (q + 2) buf1) + i) = (pkt @ drop (q + 2 + length pkt) buf1) ! i"
      unfolding buf2_def by (rule nth_append_length_plus)
    with t that show ?thesis by (simp add: nth_append)
  qed
  have dr: "take (length pkt) (drop (q + 2) buf2) = pkt"
    using t by (simp add: buf2_def)
  have u4: "Uint16_at buf2 (int q + 4) = Inr (headSN b)"
  proof -
    from sn len have "push_bit 8 (ucast (pkt ! 2)) OR ucast (pkt ! 3) = headSN b"
      by (simp add: rtp_sn_def)
    moreover have "buf2 ! (q + 4) = pkt ! 2" "buf2 ! (q + 5) = pkt ! 3"
      using nk [of 2] nk [of 3] len by (simp_all add: numeral_eq_Suc)
    moreover have "int q + 4 = int (q + 4)" by simp
    ultimately show ?thesis
      using l2 qn Uint16_at_nat [of "q + 4" buf2] by (simp add: add.commute)
  qed
  have u0: "Uint16_at buf2 (int q) = Inr v"
    using l2 qn n0 uint16_bytes [of v] Uint16_at_nat [of q buf2] by simp
  have uv: "uint v = int (length pkt)"
  proof -
    have "length pkt < 2 ^ 16" using len by simp
    then show ?thesis
      by (simp add: v_def unsigned_of_nat take_bit_nat_eq_self)
  qed
  have sl: "slice buf2 (int q + 2) (int q + 2 + int (length pkt)) = Inr pkt"
  proof -
    have "int q + 2 = int (q + 2)" "int q + 2 + int (length pkt) = int (q + 2 + length pkt)"
      by simp_all
    then show ?thesis
      using l2 qn len dr slice_nat [of "q + 2" "q + 2 + length pkt" buf2] by (simp add: ac_simps)
  qed
  have "get (b\<lparr>buf := buf2, step := st\<rparr>) (headSN b) = Inr (Some pkt)"
    unfolding get_def gp using u4 u0 uv sl l2 qn by (simp add: e Let_def)
  then show ?thesis unfolding pb .
qed


lemma AddPacket_latest_eq:
  "AddPacket b pkt sn True =
     push_bucket
       (skip_steps (unat (sn - headSN (if \<not> init b then b\<lparr>headSN := sn - 1, init := True\<rparr> else b)) - 1)
          ((if \<not> init b then b\<lparr>headSN := sn - 1, init := True\<rparr> else b)\<lparr>headSN := sn\<rparr>))
       pkt"
  by (simp add: AddPacket_def Let_def)

lemma AddPacket_latest_get:
  assumes "bucket_ok b" "4 \<le> length pkt" "length pkt \<le> 1498" "rtp_sn pkt = Some sn"
  shows "get (snd (AddPacket b pkt sn True)) sn = Inr (Some pkt)"
proof -
  define b0 where "b0 = (if \<not> init b then b\<lparr>headSN := sn - 1, init := True\<rparr> else b)"
  define b1 where "b1 = skip_steps (unat (sn - headSN b0) - 1) (b0\<lparr>headSN := sn\<rparr>)"
  have "bucket_ok (b0\<lparr>headSN := sn\<rparr>)" using assms(1) by (simp add: b0_def bucket_ok_def)
  then have ok: "bucket_ok b1" unfolding b1_def by (rule skip_steps_ok)
  have h: "headSN b1 = sn" by (simp add: b1_def skip_steps_fields)
  have "AddPacket b pkt sn True = push_bucket b1 pkt"
    unfolding AddPacket_latest_eq b1_def b0_def ..
  moreover from push_bucket_get [OF ok assms(2,3)] assms(4) h
  have "get (snd (push_bucket b1 pkt)) sn = Inr (Some pkt)" by simp
  ultimately show ?thesis by simp
qed

lemma set_bucket_ok: "bucket_ok b \<Longrightarrow> bucket_ok (snd (set_bucket b sn pkt))"
proof -
  assume ok: "bucket_ok b"
  have l: "length ys = length (buf b) \<Longrightarrow> bucket_ok (b\<lparr>buf := ys\<rparr>)" for ys
    using ok by (simp add: bucket_ok_def)
  have p: "PutUint16_at xs off v = Inr ys \<Longrightarrow> length ys = length xs" for xs off v ys
    by (auto simp: PutUint16_at_def split: if_splits)
  have c: "copy_at xs off src = Inr ys \<Longrightarrow> length ys = length xs" for xs off src ys
    by (auto simp: copy_at_def split: if_splits)
  show ?thesis
    using ok l p c
    by (auto simp: set_bucket_def Let_def split: sum.splits dest!: p c)
qed

lemma AddPacket_ok: "bucket_ok b \<Longrightarrow> bucket_ok (snd (AddPacket b pkt sn latest))"
proof -
  assume ok: "bucket_ok b"
  define b0 where "b0 = (if \<not> init b then b\<lparr>headSN := sn - 1, init := True\<rparr> else b)"
  have ok0: "bucket_ok b0" using ok by (simp add: b0_def bucket_ok_def)
  show ?thesis
  proof (cases latest)
    case True
    have "bucket_ok (b0\<lparr>headSN := sn\<rparr>)" using ok0 by (simp add: bucket_ok_def)
    then have "bucket_ok (skip_steps (unat (sn - headSN b0) - 1) (b0\<lparr>headSN := sn\<rparr>))"
      by (rule skip_steps_ok)
    then have p: "bucket_ok (snd (push_bucket (skip_steps (unat (sn - headSN b0) - 1) (b0\<lparr>headSN := sn\<rparr>)) pkt))"
      by (rule push_bucket_ok)
    have e: "AddPacket b pkt sn True =
        push_bucket (skip_steps (unat (sn - headSN b0) - 1) (b0\<lparr>headSN := sn\<rparr>)) pkt"
      unfolding b0_def by (rule AddPacket_latest_eq)
    from True have t: "latest = True" by simp
    show ?thesis unfolding t e using p .
  next
    case False
    have "AddPacket b pkt sn False = set_bucket b0 sn pkt"
      by (simp add: AddPacket_def b0_def Let_def)
    with False set_bucket_ok [OF ok0, of sn pkt] show ?thesis by simp
  qed
qed

lemma NewBucket_ok:
  assumes "1500 \<le> length xs" "length xs < 1500 * 65536"
  shows "bucket_ok (NewBucket xs)"
proof -
  define n where "n = int (length xs)"
  from assms have n: "1500 \<le> n" "n < 1500 * 65536" by (simp_all add: n_def)
  then have "1 \<le> n div 1500" "n div 1500 < 65536" "n div 1500 * 1500 \<le> n" by simp_all
  then show ?thesis
    by (simp add: NewBucket_def bucket_ok_def maxPktSize_def n_def)
qed

lemma rtp_sn_rtp_packet: "rtp_sn (rtp_packet sn) = Some sn"
proof -
  have "push_bit 8 (ucast (ucast (drop_bit 8 sn) :: byte)) OR ucast (ucast sn :: byte) = sn"
    by (rule uint16_bytes)
  then show ?thesis by (simp add: rtp_sn_def rtp_packet_def)
qed

lemma get_bucket_two: "get bucket_two 6 = Inr (Some (rtp_packet 6))"
proof -
  have "bucket_ok (NewBucket (replicate 3000 0))" by (rule NewBucket_ok) simp_all
  then have "bucket_ok (snd (AddPacket (NewBucket (replicate 3000 0)) (rtp_packet 5) 5 True))"
    by (rule AddPacket_ok)
  from AddPacket_latest_get [OF this, of "rtp_packet 6" 6] show ?thesis
    by (simp add: bucket_two_def length_rtp_packet rtp_sn_rtp_packet)
qed

text \<open>
  C7 as stated fails. After the packets 5 and 6 the bucket of two slots
  (\<open>maxSteps = 1\<close>) has \<open>step = 0\<close>; packet 6 is in slot 1, where \<open>get\<close> and \<open>set\<close>
  look for it, and \<open>step - (headSN - sn + 1)\<close> modulo \<open>maxSteps\<close> is 0.
\<close>

theorem slot_position_not_mod_maxSteps:
  "get_pos bucket_two 6 = Some 1 \<and> set_pos bucket_two 6 = 1
   \<and> get bucket_two 6 = Inr (Some (rtp_packet 6))
   \<and> (step bucket_two - uint (headSN bucket_two - 6 + 1)) mod maxSteps bucket_two = 0"
  using bucket_two_fields get_bucket_two by (simp add: get_pos_def set_pos_def)

section \<open>Properties of the TWCC responder\<close>



lemma and_then_Inr [simp]: "and_then (Inr x) f = f x"
  by (simp add: and_then_def)

lemma and_then_Inl [simp]: "and_then (Inl e) f = Inl e"
  by (simp add: and_then_def)












lemma pop_while_rest:
  "snd (pop_while t s i xs) = drop ((length xs + 1 - i) div 2) xs"
proof (induction t s i xs rule: pop_while.induct)
  case (1 t s i xs)
  show ?case
  proof (cases "i < length xs")
    case False
    then have "(length xs + 1 - i) div 2 = 0" by simp
    moreover from False have "pop_while t s i xs = (t, xs)"
      by (subst pop_while.simps) simp
    ultimately show ?thesis by simp
  next
    case True
    then obtain x rest where xs: "xs = x # rest" by (cases xs) auto
    have "pop_while t s i xs = pop_while (createStatusSymbolChunk t s x i) s (i + 1) rest"
      using True xs by (subst pop_while.simps) simp
    moreover have "snd (pop_while (createStatusSymbolChunk t s x i) s (i + 1) rest) =
        drop ((length rest + 1 - (i + 1)) div 2) rest"
      using "1.IH" [OF True xs] .
    moreover have "(length xs + 1 - i) div 2 = Suc ((length rest + 1 - (i + 1)) div 2)"
      using True xs by simp
    ultimately show ?thesis using xs by simp
  qed
qed

lemma pop_while_leaves_half: "length (snd (pop_while t s 0 xs)) = length xs div 2"
  by (simp add: pop_while_rest)

text \<open>
  C4. The responder receives the packets 1 to 10 and 12 to 22, 5 ms apart, the marker on the
  last; the 21st call builds the feedback. Its status count is 22 and it carries 21 deltas,
  but its chunks are the run length chunk \<open>0x200A\<close> (ten received) and the status vector
  chunk \<open>0x9F00\<close>, whose one-bit symbols are \<open>0 1 1 1 1 1 0 0 ...\<close>: the loop that
  empties the deque has written six of the twelve statuses left (lemma
  \<open>pop_while_leaves_half\<close>), and the packets 17 to 22 read as not received.
\<close>

theorem feedback_loses_trailing_statuses:
  "packets_of (Push_all (NewTransportWideCCResponder 2 1) twcc_arrivals) =
     Some [[175, 205, 0, 11, 0, 0, 0, 2, 0, 0, 0, 1, 0, 1, 0, 22, 0, 0, 15, 0, 32,
            10, 159, 0, 160, 20, 20, 20, 20, 20, 20, 20, 20, 20, 20, 20, 20, 20, 20,
            20, 20, 20, 20, 20, 20, 0, 0, 3]]"
  by code_simp

text \<open>
  A packet that arrives 10 s after the one before it has a delta of 40000 units of 250
  microseconds. The conversion to 16 bits gives a negative number, and the test of its sign
  sends the delta to the lower end of the range: the bytes written are \<open>0x8000\<close>.
\<close>

lemma large_delta_clamps_to_lower_end:
  "(case record_delta 1 2 build_state_example \<lparr>ExtTSN = 2, Timestamp = 11000000\<rparr> of
      Inl e \<Rightarrow> None
    | Inr (status, st) \<Rightarrow> Some (status, take 2 (deltas (resp st)))) =
   Some (TypeTCCPacketReceivedLargeDelta, [0x80, 0x00])"
  by code_simp

section \<open>Properties of the session registry\<close>


lemma NewSFU_ok: "sfu_ok NewSFU"
  by (simp add: sfu_ok_def NewSFU_def)

lemma newSession_ok: "sfu_ok s \<Longrightarrow> sfu_ok (snd (newSession s sid))"
  unfolding sfu_ok_def newSession_def Let_def
  by (auto simp: less_Suc_eq split: if_splits)

lemma GetSession_ok: "sfu_ok s \<Longrightarrow> sfu_ok (snd (GetSession s sid))"
  using newSession_ok [of s sid]
  by (simp add: GetSession_def getSession_def split: option.splits)

lemma Close_ok: "sfu_ok s \<Longrightarrow> sfu_ok (Close s x)"
  unfolding sfu_ok_def Close_def on_close_def
  by (auto split: option.splits if_splits)

lemma GetSession_registered:
  "sessions s sid = Some x \<Longrightarrow> GetSession s sid = (x, s)"
  by (simp add: GetSession_def getSession_def)

lemma GetSession_new:
  assumes "sfu_ok s" "sessions s sid = None"
  shows "fst (GetSession s sid) = allocated s"
    and "sessions (snd (GetSession s sid)) sid = Some (fst (GetSession s sid))"
    and "fst (GetSession s sid) \<notin> ran (sessions s)"
    and "sid' \<noteq> sid \<Longrightarrow> sessions (snd (GetSession s sid)) sid' = sessions s sid'"
proof -
  show g: "fst (GetSession s sid) = allocated s"
    using assms(2) by (simp add: GetSession_def getSession_def newSession_def Let_def)
  show "sessions (snd (GetSession s sid)) sid = Some (fst (GetSession s sid))"
    using assms(2) by (simp add: GetSession_def getSession_def newSession_def Let_def)
  show "fst (GetSession s sid) \<notin> ran (sessions s)"
  proof
    assume "fst (GetSession s sid) \<in> ran (sessions s)"
    then obtain i where "sessions s i = Some (allocated s)" unfolding g by (auto simp: ran_def)
    with assms(1) have "allocated s < allocated s" unfolding sfu_ok_def by blast
    then show False by simp
  qed
  show "sessions (snd (GetSession s sid)) sid' = sessions s sid'" if "sid' \<noteq> sid"
    using assms(2) that by (simp add: GetSession_def getSession_def newSession_def Let_def)
qed

lemma Close_removes:
  assumes "sfu_ok s" "sessions s sid = Some x"
  shows "sessions (Close s x) sid = None" and "x < allocated (Close s x)"
proof -
  from assms have h: "closeHandlers s x = Some sid" unfolding sfu_ok_def by blast
  then show "sessions (Close s x) sid = None" by (simp add: Close_def on_close_def)
  from assms(1) h have "x < allocated s" unfolding sfu_ok_def by blast
  with h show "x < allocated (Close s x)" by (simp add: Close_def on_close_def)
qed

text \<open>
  C9. On a well-formed registry, \<open>GetSession\<close> returns the session registered under the
  ID and leaves the registry alone when there is one; otherwise it creates a session that
  was in the registry under no ID, registers it under the ID and returns it, and the other
  IDs keep their sessions. After the close of the session registered under an ID the
  registry has no session for the ID, and the next \<open>GetSession\<close> with the ID returns a
  session other than the closed one, registered under the ID.
\<close>

theorem GetSession_lazy_and_fresh_after_close:
  assumes "sfu_ok s"
  shows "(\<forall>x. sessions s sid = Some x \<longrightarrow> GetSession s sid = (x, s))
       \<and> (sessions s sid = None \<longrightarrow>
            sessions (snd (GetSession s sid)) sid = Some (fst (GetSession s sid))
            \<and> fst (GetSession s sid) \<notin> ran (sessions s)
            \<and> (\<forall>sid'. sid' \<noteq> sid \<longrightarrow> sessions (snd (GetSession s sid)) sid' = sessions s sid'))
       \<and> (\<forall>x. sessions s sid = Some x \<longrightarrow>
            sessions (Close s x) sid = None
            \<and> fst (GetSession (Close s x) sid) \<noteq> x
            \<and> sessions (snd (GetSession (Close s x) sid)) sid = Some (fst (GetSession (Close s x) sid)))"
proof -
  have c: "sessions (Close s x) sid = None
            \<and> fst (GetSession (Close s x) sid) \<noteq> x
            \<and> sessions (snd (GetSession (Close s x) sid)) sid = Some (fst (GetSession (Close s x) sid))"
    if r: "sessions s sid = Some x" for x
  proof -
    have ok: "sfu_ok (Close s x)" using assms by (rule Close_ok)
    from Close_removes [OF assms r] have n: "sessions (Close s x) sid = None"
      and l: "x < allocated (Close s x)" by simp_all
    from GetSession_new(1) [OF ok n] l have "fst (GetSession (Close s x) sid) \<noteq> x" by simp
    with n GetSession_new(2) [OF ok n] show ?thesis by simp
  qed
  from GetSession_registered [of s sid] GetSession_new(2,3,4) [OF assms, of sid] c
  show ?thesis by blast
qed

lemma sfu_one_eq:
  "sfu_one = \<lparr>sessions = [''room'' \<mapsto> 0], closeHandlers = [0 \<mapsto> ''room''], allocated = Suc 0\<rparr>"
  by (simp add: sfu_one_def GetSession_def getSession_def newSession_def NewSFU_def Let_def)

theorem GetSession_lazy_and_fresh_after_close_witness:
  "sfu_ok sfu_one \<and> sessions sfu_one ''room'' = Some 0
   \<and> GetSession sfu_one ''room'' = (0, sfu_one)
   \<and> sessions (Close sfu_one 0) ''room'' = None
   \<and> fst (GetSession (Close sfu_one 0) ''room'') \<noteq> 0
   \<and> sessions sfu_one ''hall'' = None
   \<and> sessions (snd (GetSession sfu_one ''hall'')) ''hall'' = Some (fst (GetSession sfu_one ''hall''))"
proof -
  have ok: "sfu_ok sfu_one" unfolding sfu_one_def using NewSFU_ok by (rule GetSession_ok)
  have r: "sessions sfu_one ''room'' = Some 0" "sessions sfu_one ''hall'' = None"
    by (simp_all add: sfu_one_eq)
  from GetSession_lazy_and_fresh_after_close [OF ok, of "''room''"]
    GetSession_lazy_and_fresh_after_close [OF ok, of "''hall''"] ok r
  show ?thesis by simp
qed

end
